theory Spec2Isabelle
  imports Main "HOL-Library.Word"
begin

section \<open>Data model of the memory manager\<close>

text \<open>
  The embedding follows \<^verbatim>\<open>src/MemoryManager.h\<close> and \<^verbatim>\<open>src/MemoryManager.cpp\<close> on an LP64
  platform: \<^verbatim>\<open>unsigned int\<close> is a \<open>32 word\<close>, \<^verbatim>\<open>size_t\<close> and pointers are \<open>64 word\<close>s
  (\<^verbatim>\<open>nullptr\<close> is 0), \<^verbatim>\<open>uint16_t\<close> is a \<open>16 word\<close>. A C \<^verbatim>\<open>int\<close> is a HOL \<open>int\<close>
  in the 32-bit range; the conversions between \<^verbatim>\<open>int\<close> and \<^verbatim>\<open>unsigned int\<close> are written
  out as \<open>sint\<close> and \<open>word_of_int\<close>.
\<close>

record Hole =
  offset_H :: "32 word"
  length_H :: "32 word"

record Block =
  offset_B :: "32 word"
  length_B :: "32 word"

text \<open>
  A placement strategy is a \<^verbatim>\<open>std::function<int(int, void*)>\<close>. The buffer behind the
  \<^verbatim>\<open>void*\<close> is the \<^verbatim>\<open>uint16_t\<close> array built by \<open>getList\<close>. A strategy that reads past the
  end of the buffer has no defined result: \<open>None\<close>.
\<close>

type_synonym strategy = "int \<Rightarrow> 16 word list \<Rightarrow> int option"

record MemoryManager =
  wordSize :: "32 word"
  memoryStart :: "64 word"
  memoryLimit :: "64 word"
  allocator :: strategy
  holeList :: "Hole list"
  allocatedList :: "Block list"

datatype error = InvalidArgument | RuntimeError

definition MAX_NUM_WORDS :: "32 word" where
  "MAX_NUM_WORDS = 65535"

definition MAP_FAILED :: "64 word" where
  "MAP_FAILED = - 1"

definition MemoryManager_new :: "32 word \<Rightarrow> strategy \<Rightarrow> MemoryManager" where
  "MemoryManager_new ws alloc =
     \<lparr>wordSize = ws, memoryStart = 0, memoryLimit = 0, allocator = alloc,
      holeList = [], allocatedList = []\<rparr>"

section \<open>Arena lifecycle\<close>

definition shutdown :: "MemoryManager \<Rightarrow> MemoryManager" where
  "shutdown m =
     (let m1 = (if memoryStart m = 0 then m else m\<lparr>memoryLimit := 0, memoryStart := 0\<rparr>)
      in m1\<lparr>holeList := [], allocatedList := []\<rparr>)"

text \<open>
  \<open>initialize\<close> takes the system call \<^verbatim>\<open>mmap\<close> as a parameter: a function from the
  requested length to the returned address (\<open>MAP_FAILED\<close> on failure). The result pairs
  the exception thrown, if any, with the state the manager is left in.
\<close>

definition initialize ::
  "(64 word \<Rightarrow> 64 word) \<Rightarrow> MemoryManager \<Rightarrow> 64 word \<Rightarrow> error option \<times> MemoryManager" where
  "initialize mmap m sizeInWords =
     (let m1 = (if memoryStart m = 0 then m else shutdown m) in
      if ucast MAX_NUM_WORDS < sizeInWords then (Some InvalidArgument, m1)
      else
        let m2 = m1\<lparr>memoryLimit := sizeInWords * ucast (wordSize m1)\<rparr>;
            m3 = m2\<lparr>memoryStart := mmap (memoryLimit m2)\<rparr>
        in if memoryStart m3 = MAP_FAILED
           then (Some RuntimeError, m3\<lparr>memoryLimit := 0, memoryStart := 0\<rparr>)
           else (None, m3\<lparr>holeList := [\<lparr>offset_H = 0, length_H = ucast sizeInWords\<rparr>],
                           allocatedList := []\<rparr>))"

section \<open>Hole snapshot\<close>

definition getList :: "MemoryManager \<Rightarrow> 16 word list option" where
  "getList m =
     (if holeList m = [] then None
      else Some (of_nat (length (holeList m)) #
                 concat (map (\<lambda>h. [ucast (offset_H h), ucast (length_H h)]) (holeList m))))"

section \<open>Placement strategies\<close>

text \<open>
  The loops of \<^verbatim>\<open>bestFit\<close> and \<^verbatim>\<open>worstFit\<close>. The counter \<open>i\<close> is a \<^verbatim>\<open>uint16_t\<close> below
  \<open>holeCount \<le> 65535\<close>, so \<open>i + 1\<close> never wraps and a \<open>nat\<close> holds it. The local
  \<^verbatim>\<open>uint16_t* holeList\<close> is called \<open>buf\<close> here, the name \<open>holeList\<close> being the manager's
  field.
\<close>

function bestFit_loop :: "int \<Rightarrow> 16 word list \<Rightarrow> nat \<Rightarrow> nat \<Rightarrow> int \<Rightarrow> int \<Rightarrow> int option" where
  "bestFit_loop sizeInWords buf holeCount i bestOffset bestLength =
     (if i < holeCount then
        (if 2 + i * 2 < length buf then
           (if sizeInWords \<le> uint (buf ! (2 + i * 2)) \<and>
               uint (buf ! (2 + i * 2)) < bestLength
            then bestFit_loop sizeInWords buf holeCount (i + 1)
                   (uint (buf ! (1 + i * 2))) (uint (buf ! (2 + i * 2)))
            else bestFit_loop sizeInWords buf holeCount (i + 1) bestOffset bestLength)
         else None)
      else Some bestOffset)"
  by pat_completeness auto
termination
  by (relation "measure (\<lambda>(s, l, n, i, bo, bl). n - i)") auto

definition bestFit :: strategy where
  "bestFit sizeInWords list =
     (case list of
        [] \<Rightarrow> None
      | holeCount # _ \<Rightarrow>
          bestFit_loop sizeInWords list (unat holeCount) 0 (- 1) (uint MAX_NUM_WORDS + 1))"

function worstFit_loop :: "int \<Rightarrow> 16 word list \<Rightarrow> nat \<Rightarrow> nat \<Rightarrow> int \<Rightarrow> int \<Rightarrow> int option" where
  "worstFit_loop sizeInWords buf holeCount i bestOffset bestLength =
     (if i < holeCount then
        (if 2 + i * 2 < length buf then
           (if sizeInWords \<le> uint (buf ! (2 + i * 2)) \<and>
               bestLength < uint (buf ! (2 + i * 2))
            then worstFit_loop sizeInWords buf holeCount (i + 1)
                   (uint (buf ! (1 + i * 2))) (uint (buf ! (2 + i * 2)))
            else worstFit_loop sizeInWords buf holeCount (i + 1) bestOffset bestLength)
         else None)
      else Some bestOffset)"
  by pat_completeness auto
termination
  by (relation "measure (\<lambda>(s, l, n, i, bo, bl). n - i)") auto

definition worstFit :: strategy where
  "worstFit sizeInWords list =
     (case list of
        [] \<Rightarrow> None
      | holeCount # _ \<Rightarrow> worstFit_loop sizeInWords list (unat holeCount) 0 (- 1) (- 1))"

section \<open>Allocation\<close>

text \<open>The \<^verbatim>\<open>while\<close> loop that finds the insertion point in \<open>allocatedList\<close>.\<close>

fun insert_block :: "Block \<Rightarrow> Block list \<Rightarrow> Block list" where
  "insert_block block [] = [block]"
| "insert_block block (x # xs) =
     (if offset_B x < offset_B block then x # insert_block block xs else block # x # xs)"

text \<open>
  The \<^verbatim>\<open>for\<close> loop over \<open>holeList\<close> in \<^verbatim>\<open>allocate\<close>: the first hole whose offset equals the
  chosen one is erased on an exact fit and shrunk from its low end otherwise; \<open>None\<close> when
  the loop ends without a match.
\<close>

fun take_from_hole :: "32 word \<Rightarrow> 32 word \<Rightarrow> Hole list \<Rightarrow> Hole list option" where
  "take_from_hole wordOffset sizeInWords [] = None"
| "take_from_hole wordOffset sizeInWords (h # hs) =
     (if offset_H h = wordOffset then
        Some (if length_H h = sizeInWords then hs
              else h\<lparr>offset_H := offset_H h + sizeInWords,
                     length_H := length_H h - sizeInWords\<rparr> # hs)
      else map_option ((#) h) (take_from_hole wordOffset sizeInWords hs))"

definition words_of_bytes :: "32 word \<Rightarrow> 64 word \<Rightarrow> 32 word" where
  "words_of_bytes ws sizeInBytes = ucast ((sizeInBytes + ucast ws - 1) div ucast ws)"

text \<open>
  \<open>allocate\<close> returns the address and the new state. \<open>None\<close> stands for the two places
  with no defined result: the division by a zero word size and a strategy that read out
  of bounds.
\<close>

definition allocate :: "MemoryManager \<Rightarrow> 64 word \<Rightarrow> (64 word \<times> MemoryManager) option" where
  "allocate m sizeInBytes =
     (if memoryStart m = 0 \<or> sizeInBytes = 0 then Some (0, m)
      else if wordSize m = 0 then None
      else
        let sizeInWords = words_of_bytes (wordSize m) sizeInBytes in
        case getList m of
          None \<Rightarrow> Some (0, m)
        | Some list \<Rightarrow>
            (case allocator m (sint sizeInWords) list of
               None \<Rightarrow> None
             | Some wordOffset \<Rightarrow>
                 if wordOffset = - 1 then Some (0, m)
                 else
                   (case take_from_hole (word_of_int wordOffset) sizeInWords (holeList m) of
                      None \<Rightarrow> Some (0, m)
                    | Some holes \<Rightarrow>
                        Some (memoryStart m + ucast (word_of_int wordOffset * wordSize m),
                              m\<lparr>allocatedList :=
                                   insert_block
                                     \<lparr>offset_B = word_of_int wordOffset, length_B = sizeInWords\<rparr>
                                     (allocatedList m),
                                 holeList := holes\<rparr>))))"

section \<open>Deallocation and coalescing\<close>

fun insert_hole :: "Hole \<Rightarrow> Hole list \<Rightarrow> Hole list" where
  "insert_hole hole [] = [hole]"
| "insert_hole hole (x # xs) =
     (if offset_H x < offset_H hole then x # insert_hole hole xs else hole # x # xs)"

fun mergeHoles :: "Hole list \<Rightarrow> Hole list" where
  "mergeHoles [] = []"
| "mergeHoles [h] = [h]"
| "mergeHoles (h # n # rest) =
     (if offset_H h + length_H h = offset_H n
      then mergeHoles (h\<lparr>length_H := length_H h + length_H n\<rparr> # rest)
      else h # mergeHoles (n # rest))"

text \<open>
  The \<^verbatim>\<open>for\<close> loop over \<open>allocatedList\<close> in \<^verbatim>\<open>free\<close>: the first block at the offset is
  erased; the result is its length and the remaining list.
\<close>

fun erase_block :: "32 word \<Rightarrow> Block list \<Rightarrow> (32 word \<times> Block list) option" where
  "erase_block wordOffset [] = None"
| "erase_block wordOffset (b # bs) =
     (if offset_B b = wordOffset then Some (length_B b, bs)
      else map_option (\<lambda>(len, rest). (len, b # rest)) (erase_block wordOffset bs))"

definition word_offset_of :: "MemoryManager \<Rightarrow> 64 word \<Rightarrow> 32 word" where
  "word_offset_of m address = ucast ((address - memoryStart m) div ucast (wordSize m))"

text \<open>
  \<open>free\<close> returns the new state; \<open>None\<close> is the division by a zero word size. The variable
  \<^verbatim>\<open>allocatedLength\<close> doubles as the "found" flag, so a block of length 0 is erased and
  turned into a hole, but the coalescing pass is skipped.
\<close>

definition free :: "MemoryManager \<Rightarrow> 64 word \<Rightarrow> MemoryManager option" where
  "free m address =
     (if memoryStart m = 0 \<or> address = 0 then Some m
      else if wordSize m = 0 then None
      else
        let wordOffset = word_offset_of m address in
        case erase_block wordOffset (allocatedList m) of
          None \<Rightarrow> Some m
        | Some (allocatedLength, rest) \<Rightarrow>
            let m1 = m\<lparr>allocatedList := rest,
                       holeList := insert_hole
                                     \<lparr>offset_H = wordOffset, length_H = allocatedLength\<rparr>
                                     (holeList m)\<rparr>
            in if allocatedLength = 0 then Some m1
               else Some (m1\<lparr>holeList := mergeHoles (holeList m1)\<rparr>))"

section \<open>Dumping the hole list to a file\<close>

text \<open>
  The file system is a parameter of \<^verbatim>\<open>dumpMemoryMap\<close>: the value returned by \<^verbatim>\<open>open\<close>,
  the value returned by the \<open>k\<close>-th call of \<^verbatim>\<open>write\<close> (counted from 0, \<open>- 1\<close> on failure,
  otherwise the number of bytes that reached the file) and the value returned by
  \<^verbatim>\<open>close\<close>.
\<close>

record file_system =
  open_result :: int
  write_result :: "nat \<Rightarrow> int"
  close_result :: int

definition digit :: "nat \<Rightarrow> char" where
  "digit d = ''0123456789'' ! (d mod 10)"

text \<open>\<^verbatim>\<open>std::to_string\<close> on an unsigned value: its decimal digits.\<close>

function to_string :: "nat \<Rightarrow> string" where
  "to_string n = (if n < 10 then [digit n] else to_string (n div 10) @ [digit (n mod 10)])"
  by pat_completeness auto
termination
  by (relation "measure (\<lambda>n. n)") auto

definition entry :: "Hole \<Rightarrow> string" where
  "entry h = ''['' @ to_string (unat (offset_H h)) @ '', '' @ to_string (unat (length_H h)) @ '']''"

text \<open>
  The \<^verbatim>\<open>for\<close> loop of \<^verbatim>\<open>dumpMemoryMap\<close>, from the \<open>k\<close>-th call of \<^verbatim>\<open>write\<close> and the file
  content \<open>out\<close> so far. The result says whether the loop ran to its end (\<open>False\<close>: an
  entry's \<^verbatim>\<open>write\<close> returned \<open>- 1\<close>) and what the file holds. The value returned by the
  \<^verbatim>\<open>write\<close> of the delimiter is not inspected.
\<close>

fun dump_loop :: "(nat \<Rightarrow> int) \<Rightarrow> nat \<Rightarrow> string \<Rightarrow> Hole list \<Rightarrow> bool \<times> string" where
  "dump_loop wr k out [] = (True, out)"
| "dump_loop wr k out (h # rest) =
     (if wr k = - 1 then (False, out)
      else if rest = [] then dump_loop wr (k + 1) (out @ take (nat (wr k)) (entry h)) rest
      else dump_loop wr (k + 2)
             (out @ take (nat (wr k)) (entry h) @ take (nat (wr (k + 1))) '' - '') rest)"

text \<open>The result is the returned status and the content of the file, if it was opened.\<close>

definition dumpMemoryMap :: "file_system \<Rightarrow> MemoryManager \<Rightarrow> int \<times> string option" where
  "dumpMemoryMap fs m =
     (if open_result fs = - 1 then (- 1, None)
      else
        case dump_loop (write_result fs) 0 [] (holeList m) of
          (False, out) \<Rightarrow> (- 1, Some out)
        | (True, out) \<Rightarrow> if close_result fs = - 1 then (- 1, Some out) else (0, Some out))"

section \<open>Sequences of calls\<close>

datatype call = Initialize "64 word" | Allocate "64 word" | Free "64 word"

fun step :: "(64 word \<Rightarrow> 64 word) \<Rightarrow> MemoryManager \<Rightarrow> call \<Rightarrow> MemoryManager option" where
  "step mmap m (Initialize n) = Some (snd (initialize mmap m n))"
| "step mmap m (Allocate n) = map_option snd (allocate m n)"
| "step mmap m (Free a) = free m a"

fun run :: "(64 word \<Rightarrow> 64 word) \<Rightarrow> MemoryManager \<Rightarrow> call list \<Rightarrow> MemoryManager option" where
  "run mmap m [] = Some m"
| "run mmap m (c # cs) = (case step mmap m c of None \<Rightarrow> None | Some m' \<Rightarrow> run mmap m' cs)"

definition alloc_then_free :: "MemoryManager \<Rightarrow> 64 word \<Rightarrow> MemoryManager option" where
  "alloc_then_free m n = (case allocate m n of None \<Rightarrow> None | Some (a, m') \<Rightarrow> free m' a)"

section \<open>Notions used in the statements\<close>

text \<open>The two ledgers of a state.\<close>

definition ledgers :: "MemoryManager \<Rightarrow> Hole list \<times> Block list" where
  "ledgers m = (holeList m, allocatedList m)"

text \<open>Whether the extent at \<open>off\<close> of \<open>len\<close> words contains the word index \<open>w\<close>.\<close>

definition covers :: "32 word \<Rightarrow> 32 word \<Rightarrow> nat \<Rightarrow> bool" where
  "covers off len w \<longleftrightarrow> unat off \<le> w \<and> w < unat off + unat len"

text \<open>How many extents of the two ledgers contain the word index \<open>w\<close>.\<close>

definition cover_count :: "MemoryManager \<Rightarrow> nat \<Rightarrow> nat" where
  "cover_count m w =
     length (filter (\<lambda>h. covers (offset_H h) (length_H h) w) (holeList m)) +
     length (filter (\<lambda>b. covers (offset_B b) (length_B b) w) (allocatedList m))"

text \<open>
  The serialized view of a list of holes, each an (offset, length) pair of \<^verbatim>\<open>uint16_t\<close>:
  the count, then the pairs. This is the layout \<open>getList\<close> produces.
\<close>

definition snapshot :: "(16 word \<times> 16 word) list \<Rightarrow> 16 word list" where
  "snapshot hs = of_nat (length hs) # concat (map (\<lambda>h. [fst h, snd h]) hs)"

text \<open>
  A left-to-right scan over the holes that keeps the first hole whose key is below the
  best key so far; both strategy loops are instances of it.
\<close>

fun scan :: "(16 word \<Rightarrow> int) \<Rightarrow> int \<Rightarrow> (16 word \<times> 16 word) list \<Rightarrow> int \<Rightarrow> int \<Rightarrow> int" where
  "scan key req [] bo bk = bo"
| "scan key req (h # hs) bo bk =
     (if req \<le> uint (snd h) \<and> key (snd h) < bk
      then scan key req hs (uint (fst h)) (key (snd h))
      else scan key req hs bo bk)"

text \<open>
  Hole \<open>i\<close> is large enough, has a key below \<open>bk\<close>, has the least key among the holes that
  are large enough, and is the first such hole.
\<close>

definition chosen ::
  "(16 word \<Rightarrow> int) \<Rightarrow> int \<Rightarrow> (16 word \<times> 16 word) list \<Rightarrow> int \<Rightarrow> nat \<Rightarrow> bool" where
  "chosen key req hs bk i \<longleftrightarrow>
     i < length hs \<and> req \<le> uint (snd (hs ! i)) \<and> key (snd (hs ! i)) < bk \<and>
     (\<forall>j < length hs. req \<le> uint (snd (hs ! j)) \<longrightarrow> key (snd (hs ! i)) \<le> key (snd (hs ! j))) \<and>
     (\<forall>j < i. req \<le> uint (snd (hs ! j)) \<longrightarrow> key (snd (hs ! i)) < key (snd (hs ! j)))"

text \<open>
  What the strategy answers when \<^verbatim>\<open>allocate\<close> consults it for \<open>sizeInBytes\<close>: it is handed
  the rounded word count, converted to \<^verbatim>\<open>int\<close>, and the snapshot of the Hole Ledger; on an
  empty ledger there is no snapshot and it is not consulted.
\<close>

definition strategy_answer :: "MemoryManager \<Rightarrow> 64 word \<Rightarrow> int option" where
  "strategy_answer m sizeInBytes =
     (case getList m of
        None \<Rightarrow> None
      | Some list \<Rightarrow> allocator m (sint (words_of_bytes (wordSize m) sizeInBytes)) list)"

text \<open>
  The requested word count of the specification, \<open>ceil (sizeBytes / wordSizeBytes)\<close>, as an
  unbounded integer.
\<close>

definition ceil_words :: "32 word \<Rightarrow> 64 word \<Rightarrow> int" where
  "ceil_words ws sizeInBytes = (uint sizeInBytes + uint ws - 1) div uint ws"

text \<open>
  The word offset of an address as the mathematical quotient
  \<open>floor ((address - memoryStart) / wordSize)\<close>, without any truncation.
\<close>

definition floor_offset :: "MemoryManager \<Rightarrow> 64 word \<Rightarrow> int" where
  "floor_offset m address = (uint address - uint (memoryStart m)) div uint (wordSize m)"

section \<open>The ledger invariant\<close>

text \<open>
  Whether a hole, or a block, contains the word index \<open>w\<close>.
\<close>

definition in_hole :: "Hole \<Rightarrow> nat \<Rightarrow> bool" where
  "in_hole h w = covers (offset_H h) (length_H h) w"

definition in_block :: "Block \<Rightarrow> nat \<Rightarrow> bool" where
  "in_block b w = covers (offset_B b) (length_B b) w"

text \<open>
  How many holes, or blocks, of a list contain the word index \<open>w\<close>.
\<close>

definition hole_count :: "Hole list \<Rightarrow> nat \<Rightarrow> nat" where
  "hole_count hs w = length (filter (\<lambda>h. in_hole h w) hs)"

definition block_count :: "Block list \<Rightarrow> nat \<Rightarrow> nat" where
  "block_count bs w = length (filter (\<lambda>b. in_block b w) bs)"

text \<open>
  The capacity in words, as \<^verbatim>\<open>getBitmap\<close> computes it: \<^verbatim>\<open>memoryLimit / wordSize\<close>.
\<close>

definition capacityWords :: "MemoryManager \<Rightarrow> nat" where
  "capacityWords m = unat (memoryLimit m) div unat (wordSize m)"

text \<open>
  The tiling invariant: every word index below the capacity lies in exactly one extent of
  the two ledgers, every other index in none.
\<close>

definition tiled :: "MemoryManager \<Rightarrow> bool" where
  "tiled m \<longleftrightarrow> (\<forall>w. cover_count m w = (if w < capacityWords m then 1 else 0))"

text \<open>
  Every extent of the two ledgers has a positive length.
\<close>

definition positive_extents :: "MemoryManager \<Rightarrow> bool" where
  "positive_extents m \<longleftrightarrow>
     (\<forall>h \<in> set (holeList m). length_H h \<noteq> 0) \<and> (\<forall>b \<in> set (allocatedList m). length_B b \<noteq> 0)"

text \<open>
  The states the proofs below range over: a word size of at least 1, one of the two
  strategies of the repository, a capacity within the 16-bit ceiling, empty ledgers when
  no arena is live, positive extents, and the tiling invariant.
\<close>

definition consistent :: "MemoryManager \<Rightarrow> bool" where
  "consistent m \<longleftrightarrow>
     wordSize m \<noteq> 0 \<and> (allocator m = bestFit \<or> allocator m = worstFit) \<and>
     capacityWords m \<le> 65535 \<and>
     (memoryStart m = 0 \<longrightarrow> holeList m = [] \<and> allocatedList m = []) \<and>
     positive_extents m \<and> tiled m"

text \<open>
  A hole of positive length that ends at or below \<open>cap\<close>.
\<close>

definition fits_in :: "nat \<Rightarrow> Hole \<Rightarrow> bool" where
  "fits_in cap h \<longleftrightarrow> length_H h \<noteq> 0 \<and> unat (offset_H h) + unat (length_H h) \<le> cap"

text \<open>
  A request whose rounding neither wraps at 64 bits nor leaves the range of a positive
  \<^verbatim>\<open>int\<close>: \<open>sizeInBytes + wordSize - 1 < 2^64\<close> and the quotient is below \<open>2^31\<close>.
\<close>

definition exact_request :: "32 word \<Rightarrow> 64 word \<Rightarrow> bool" where
  "exact_request ws n \<longleftrightarrow>
     uint n + uint ws - 1 < 2 ^ 64 \<and> (uint n + uint ws - 1) div uint ws < 2 ^ 31"

text \<open>
  What POSIX says about \<^verbatim>\<open>mmap\<close> without \<^verbatim>\<open>MAP_FIXED\<close>: a length of 0 is refused, and the
  address returned is never null.
\<close>

definition mmap_sane :: "(64 word \<Rightarrow> 64 word) \<Rightarrow> bool" where
  "mmap_sane mmap \<longleftrightarrow> mmap 0 = MAP_FAILED \<and> (\<forall>len. mmap len \<noteq> 0)"

text \<open>
  A call whose request, if it is an allocation, is exact in the sense above.
\<close>

fun sane_call :: "32 word \<Rightarrow> call \<Rightarrow> bool" where
  "sane_call ws (Initialize n) = True"
| "sane_call ws (Allocate n) = exact_request ws n"
| "sane_call ws (Free a) = True"

text \<open>
  A hole that ends strictly before the next one starts, and one that ends at or before it.
\<close>

definition gap :: "Hole \<Rightarrow> Hole \<Rightarrow> bool" where
  "gap h n \<longleftrightarrow> unat (offset_H h) + unat (length_H h) < unat (offset_H n)"

definition no_overlap :: "Hole \<Rightarrow> Hole \<Rightarrow> bool" where
  "no_overlap h n \<longleftrightarrow> unat (offset_H h) + unat (length_H h) \<le> unat (offset_H n)"

text \<open>
  A Hole Ledger in which every hole ends strictly before every later hole starts: ordered
  by offset, without overlap and without adjacency.
\<close>

definition separated :: "Hole list \<Rightarrow> bool" where
  "separated hs = sorted_wrt gap hs"

text \<open>The invariant of the manager: consistent, with a separated Hole Ledger.\<close>

definition well_formed :: "MemoryManager \<Rightarrow> bool" where
  "well_formed m \<longleftrightarrow> consistent m \<and> separated (holeList m)"

section \<open>Concrete states\<close>

text \<open>An \<^verbatim>\<open>mmap\<close> that grants every request at the address \<open>0x10000\<close>.\<close>

definition mmap_ok :: "64 word \<Rightarrow> 64 word" where
  "mmap_ok len = 65536"

text \<open>A best-fit manager with one-byte words, after \<^verbatim>\<open>initialize(10)\<close>.\<close>

definition fresh10 :: MemoryManager where
  "fresh10 =
     \<lparr>wordSize = 1, memoryStart = 65536, memoryLimit = 10, allocator = bestFit,
      holeList = [\<lparr>offset_H = 0, length_H = 10\<rparr>], allocatedList = []\<rparr>"

text \<open>The same manager after \<^verbatim>\<open>allocate(10)\<close>: one block, no hole.\<close>

definition full10 :: MemoryManager where
  "full10 =
     \<lparr>wordSize = 1, memoryStart = 65536, memoryLimit = 10, allocator = bestFit,
      holeList = [], allocatedList = [\<lparr>offset_B = 0, length_B = 10\<rparr>]\<rparr>"

text \<open>The same manager after \<^verbatim>\<open>allocate(4)\<close> instead: a block of 4 words, a hole of 6.\<close>

definition part10 :: MemoryManager where
  "part10 =
     \<lparr>wordSize = 1, memoryStart = 65536, memoryLimit = 10, allocator = bestFit,
      holeList = [\<lparr>offset_H = 4, length_H = 6\<rparr>],
      allocatedList = [\<lparr>offset_B = 0, length_B = 4\<rparr>]\<rparr>"

text \<open>A file system on which only the second call of \<^verbatim>\<open>write\<close> fails.\<close>

definition fs_delim_fails :: file_system where
  "fs_delim_fails =
     \<lparr>open_result = 3,
      write_result = (\<lambda>k. if k = 0 then 6 else if k = 1 then - 1 else 7),
      close_result = 0\<rparr>"

text \<open>
  A best-fit manager with one-byte words after \<^verbatim>\<open>initialize(12)\<close>, \<^verbatim>\<open>allocate(4)\<close>,
  \<^verbatim>\<open>allocate(6)\<close> and the release of the first block: two holes around one block.
\<close>

definition two_holes :: MemoryManager where
  "two_holes =
     \<lparr>wordSize = 1, memoryStart = 65536, memoryLimit = 12, allocator = bestFit,
      holeList = [\<lparr>offset_H = 0, length_H = 4\<rparr>, \<lparr>offset_H = 10, length_H = 2\<rparr>],
      allocatedList = [\<lparr>offset_B = 4, length_B = 6\<rparr>]\<rparr>"

text \<open>
  A best-fit manager with 8-byte words after \<^verbatim>\<open>initialize(32)\<close>, \<^verbatim>\<open>allocate(32)\<close> and
  \<^verbatim>\<open>allocate(64)\<close>.
\<close>

definition demo32 :: MemoryManager where
  "demo32 =
     \<lparr>wordSize = 8, memoryStart = 65536, memoryLimit = 256, allocator = bestFit,
      holeList = [\<lparr>offset_H = 12, length_H = 20\<rparr>],
      allocatedList = [\<lparr>offset_B = 0, length_B = 4\<rparr>, \<lparr>offset_B = 4, length_B = 8\<rparr>]\<rparr>"

text \<open>A state in which word 0 lies in a hole and in a block.\<close>

definition word_covered_twice :: MemoryManager where
  "word_covered_twice =
     \<lparr>wordSize = 1, memoryStart = 65536, memoryLimit = 10, allocator = bestFit,
      holeList = [\<lparr>offset_H = 3, length_H = 4294967293\<rparr>, \<lparr>offset_H = 0, length_H = 10\<rparr>],
      allocatedList = [\<lparr>offset_B = 0, length_B = 3\<rparr>]\<rparr>"

text \<open>
  A best-fit manager with words of 1 MiB after \<^verbatim>\<open>initialize(8192)\<close> and an allocation of
  4096 words: an arena of 8 GiB.
\<close>

definition big_words :: MemoryManager where
  "big_words =
     \<lparr>wordSize = 1048576, memoryStart = 65536, memoryLimit = 8589934592, allocator = bestFit,
      holeList = [\<lparr>offset_H = 4096, length_H = 4096\<rparr>],
      allocatedList = [\<lparr>offset_B = 0, length_B = 4096\<rparr>]\<rparr>"

text \<open>
  A best-fit manager with one-byte words after \<^verbatim>\<open>initialize(10)\<close> and \<^verbatim>\<open>allocate(2147483648)\<close>:
  the request of \<open>2^31\<close> words reached the strategy as a negative \<^verbatim>\<open>int\<close>, and the hole was
  advanced and shrunk by \<open>2^31\<close> modulo \<open>2^32\<close>.
\<close>

definition after_2g :: MemoryManager where
  "after_2g =
     \<lparr>wordSize = 1, memoryStart = 65536, memoryLimit = 10, allocator = bestFit,
      holeList = [\<lparr>offset_H = 2147483648, length_H = 2147483658\<rparr>],
      allocatedList = [\<lparr>offset_B = 0, length_B = 2147483648\<rparr>]\<rparr>"

section \<open>The strategies on a snapshot\<close>

lemma length_snapshot: "length (snapshot hs) = 1 + 2 * length hs"
  by (induction hs) (simp_all add: snapshot_def)

lemma concat_pairs_nth:
  "i < length hs \<Longrightarrow>
     concat (map (\<lambda>h. [fst h, snd h]) hs) ! (2 * i) = fst (hs ! i) \<and>
     concat (map (\<lambda>h. [fst h, snd h]) hs) ! (Suc (2 * i)) = snd (hs ! i)"
proof (induction hs arbitrary: i)
  case Nil
  then show ?case by simp
next
  case (Cons h hs)
  show ?case
  proof (cases i)
    case 0
    then show ?thesis by simp
  next
    case (Suc k)
    with Cons.prems have "k < length hs" by simp
    from Cons.IH [OF this] Suc show ?thesis by simp
  qed
qed

lemma snapshot_nth:
  assumes "i < length hs"
  shows "snapshot hs ! (1 + i * 2) = fst (hs ! i)" and "snapshot hs ! (2 + i * 2) = snd (hs ! i)"
  using concat_pairs_nth [OF assms] by (simp_all add: snapshot_def mult.commute)

lemma bestFit_loop_scan:
  "i \<le> length hs \<Longrightarrow>
   bestFit_loop req (snapshot hs) (length hs) i bo bl = Some (scan uint req (drop i hs) bo bl)"
proof (induction "length hs - i" arbitrary: i bo bl)
  case 0
  then show ?case by simp
next
  case (Suc k)
  then have lt: "i < length hs" and k: "k = length hs - (i + 1)" and le: "i + 1 \<le> length hs"
    by simp_all
  have d: "drop i hs = hs ! i # drop (i + 1) hs"
    using lt by (simp add: Cons_nth_drop_Suc)
  have inb: "2 + i * 2 < length (snapshot hs)"
    using lt by (simp add: length_snapshot)
  show ?case
    by (subst bestFit_loop.simps,
        simp only: lt inb if_True snapshot_nth [OF lt] d scan.simps Suc.hyps(1) [OF k le],
        simp)
qed

lemma worstFit_loop_scan:
  "i \<le> length hs \<Longrightarrow>
   worstFit_loop req (snapshot hs) (length hs) i bo bl =
     Some (scan (\<lambda>l. - uint l) req (drop i hs) bo (- bl))"
proof (induction "length hs - i" arbitrary: i bo bl)
  case 0
  then show ?case by simp
next
  case (Suc k)
  then have lt: "i < length hs" and k: "k = length hs - (i + 1)" and le: "i + 1 \<le> length hs"
    by simp_all
  have d: "drop i hs = hs ! i # drop (i + 1) hs"
    using lt by (simp add: Cons_nth_drop_Suc)
  have inb: "2 + i * 2 < length (snapshot hs)"
    using lt by (simp add: length_snapshot)
  show ?case
    by (subst worstFit_loop.simps,
        simp only: lt inb if_True snapshot_nth [OF lt] d scan.simps Suc.hyps(1) [OF k le],
        simp)
qed

lemma chosen_Suc:
  "chosen key req (h # hs) bk (Suc i) \<longleftrightarrow>
     chosen key req hs bk i \<and> (req \<le> uint (snd h) \<longrightarrow> key (snd (hs ! i)) < key (snd h))"
  unfolding chosen_def by (simp only: length_Cons All_less_Suc2 nth_Cons_Suc nth_Cons_0 Suc_less_eq) auto

lemma chosen_0:
  "chosen key req (h # hs) bk 0 \<longleftrightarrow>
     req \<le> uint (snd h) \<and> key (snd h) < bk \<and>
     (\<forall>j < length hs. req \<le> uint (snd (hs ! j)) \<longrightarrow> key (snd h) \<le> key (snd (hs ! j)))"
  unfolding chosen_def by (simp only: length_Cons All_less_Suc2 nth_Cons_Suc nth_Cons_0) auto

lemma scan_none:
  "\<forall>h \<in> set hs. \<not> (req \<le> uint (snd h) \<and> key (snd h) < bk) \<Longrightarrow> scan key req hs bo bk = bo"
  by (induction hs) auto

lemma scan_some:
  "\<exists>h \<in> set hs. req \<le> uint (snd h) \<and> key (snd h) < bk \<Longrightarrow>
   \<exists>i. chosen key req hs bk i \<and> scan key req hs bo bk = uint (fst (hs ! i))"
proof (induction hs arbitrary: bo bk)
  case Nil
  then show ?case by simp
next
  case (Cons h hs)
  show ?case
  proof (cases "req \<le> uint (snd h) \<and> key (snd h) < bk")
    case acc: True
    show ?thesis
    proof (cases "\<exists>x \<in> set hs. req \<le> uint (snd x) \<and> key (snd x) < key (snd h)")
      case True
      from Cons.IH [OF this, of "uint (fst h)"] obtain i where
        c: "chosen key req hs (key (snd h)) i" and
        s: "scan key req hs (uint (fst h)) (key (snd h)) = uint (fst (hs ! i))" by blast
      have "chosen key req (h # hs) bk (Suc i)"
        using c acc by (simp add: chosen_Suc) (auto simp: chosen_def)
      then show ?thesis using s acc by (intro exI [of _ "Suc i"]) simp
    next
      case False
      then have "scan key req hs (uint (fst h)) (key (snd h)) = uint (fst h)"
        by (intro scan_none) blast
      moreover have "chosen key req (h # hs) bk 0"
        using acc False by (simp add: chosen_0) (meson not_less nth_mem)
      ultimately show ?thesis using acc by (intro exI [of _ 0]) simp
    qed
  next
    case rej: False
    with Cons.prems have "\<exists>x \<in> set hs. req \<le> uint (snd x) \<and> key (snd x) < bk" by auto
    from Cons.IH [OF this, of bo] obtain i where
      c: "chosen key req hs bk i" and s: "scan key req hs bo bk = uint (fst (hs ! i))" by blast
    have "chosen key req (h # hs) bk (Suc i)"
      using c rej by (simp add: chosen_Suc) (auto simp: chosen_def)
    then show ?thesis using s rej by (intro exI [of _ "Suc i"]) auto
  qed
qed

lemma scan_result_fits:
  "scan key req hs bo bk = bo \<or>
   (\<exists>h \<in> set hs. scan key req hs bo bk = uint (fst h) \<and> req \<le> uint (snd h))"
proof (induction hs arbitrary: bo bk)
  case Nil
  then show ?case by simp
next
  case (Cons h hs)
  show ?case
  proof (cases "req \<le> uint (snd h) \<and> key (snd h) < bk")
    case True
    with Cons.IH [of "uint (fst h)" "key (snd h)"] show ?thesis by auto
  next
    case False
    with Cons.IH [of bo bk] show ?thesis by auto
  qed
qed

lemma bestFit_snapshot:
  assumes "length hs \<le> 65535"
  shows "bestFit req (snapshot hs) = Some (scan uint req hs (- 1) 65536)"
proof -
  have "unat (of_nat (length hs) :: 16 word) = length hs"
    using assms by (simp add: unat_of_nat)
  then show ?thesis
    using bestFit_loop_scan [of 0 hs req "- 1" 65536]
    by (simp add: bestFit_def MAX_NUM_WORDS_def snapshot_def)
qed

lemma worstFit_snapshot:
  assumes "length hs \<le> 65535"
  shows "worstFit req (snapshot hs) = Some (scan (\<lambda>l. - uint l) req hs (- 1) 1)"
proof -
  have "unat (of_nat (length hs) :: 16 word) = length hs"
    using assms by (simp add: unat_of_nat)
  then show ?thesis
    using worstFit_loop_scan [of 0 hs req "- 1" "- 1"]
    by (simp add: worstFit_def snapshot_def)
qed

lemma fits_below_65536: "(req \<le> uint l \<and> uint l < 65536) = (req \<le> uint l)" for l :: "16 word"
  using uint_bounded [of l] by auto

lemma fits_above_minus1: "(req \<le> uint l \<and> - uint l < 1) = (req \<le> uint l)" for l :: "16 word"
proof -
  have "0 \<le> uint l" by simp
  then show ?thesis by linarith
qed

text \<open>The buffer handed to the strategy by \<^verbatim>\<open>allocate\<close> is such a snapshot.\<close>

lemma getList_snapshot:
  "holeList m \<noteq> [] \<Longrightarrow>
   getList m = Some (snapshot (map (\<lambda>h. (ucast (offset_H h), ucast (length_H h))) (holeList m)))"
  by (simp add: getList_def snapshot_def comp_def)

text \<open>
  Claim C5. On the snapshot of at most 65535 holes, for every requested word count:
  if some hole is large enough, best-fit returns the offset of a hole that is large
  enough, whose length is the smallest among the holes that are large enough, and that
  comes first among those of that length (every earlier hole that is large enough is
  strictly longer); if no hole is large enough it returns the sentinel \<open>- 1\<close>. On the
  holes \<open>[(0,4),(10,2),(20,8)]\<close> and a request of 2 words it returns 10.
\<close>

theorem bestFit_smallest_fit:
  assumes "length hs \<le> 65535"
  shows "((\<exists>h \<in> set hs. req \<le> uint (snd h)) \<longrightarrow>
            (\<exists>i < length hs.
               bestFit req (snapshot hs) = Some (uint (fst (hs ! i))) \<and>
               req \<le> uint (snd (hs ! i)) \<and>
               (\<forall>j < length hs. req \<le> uint (snd (hs ! j)) \<longrightarrow> snd (hs ! i) \<le> snd (hs ! j)) \<and>
               (\<forall>j < i. req \<le> uint (snd (hs ! j)) \<longrightarrow> snd (hs ! i) < snd (hs ! j)))) \<and>
         ((\<forall>h \<in> set hs. \<not> req \<le> uint (snd h)) \<longrightarrow> bestFit req (snapshot hs) = Some (- 1)) \<and>
         bestFit 2 (snapshot [(0, 4), (10, 2), (20, 8)]) = Some 10"
proof (intro conjI impI)
  assume "\<exists>h \<in> set hs. req \<le> uint (snd h)"
  then have "\<exists>h \<in> set hs. req \<le> uint (snd h) \<and> uint (snd h) < 65536"
    by (simp only: fits_below_65536)
  from scan_some [OF this, of "- 1"] obtain i where
    c: "chosen uint req hs 65536 i" and s: "scan uint req hs (- 1) 65536 = uint (fst (hs ! i))"
    by blast
  from c have "i < length hs" by (simp add: chosen_def)
  moreover have "bestFit req (snapshot hs) = Some (uint (fst (hs ! i)))"
    using bestFit_snapshot [OF assms, of req] s by simp
  moreover from c have "req \<le> uint (snd (hs ! i))" by (simp add: chosen_def)
  moreover from c have
    "\<forall>j < length hs. req \<le> uint (snd (hs ! j)) \<longrightarrow> snd (hs ! i) \<le> snd (hs ! j)"
    by (simp add: chosen_def word_le_def)
  moreover from c have "\<forall>j < i. req \<le> uint (snd (hs ! j)) \<longrightarrow> snd (hs ! i) < snd (hs ! j)"
    by (simp add: chosen_def word_less_def)
  ultimately show "\<exists>i < length hs.
       bestFit req (snapshot hs) = Some (uint (fst (hs ! i))) \<and>
       req \<le> uint (snd (hs ! i)) \<and>
       (\<forall>j < length hs. req \<le> uint (snd (hs ! j)) \<longrightarrow> snd (hs ! i) \<le> snd (hs ! j)) \<and>
       (\<forall>j < i. req \<le> uint (snd (hs ! j)) \<longrightarrow> snd (hs ! i) < snd (hs ! j))"
    by blast
next
  assume "\<forall>h \<in> set hs. \<not> req \<le> uint (snd h)"
  then have "scan uint req hs (- 1) 65536 = - 1"
    by (intro scan_none) blast
  then show "bestFit req (snapshot hs) = Some (- 1)"
    using bestFit_snapshot [OF assms, of req] by simp
next
  show "bestFit 2 (snapshot [(0, 4), (10, 2), (20, 8)]) = Some 10"
    by code_simp
qed

theorem bestFit_smallest_fit_witness:
  "length [(0, 4), (10, 2), (20, 8 :: 16 word) :: 16 word \<times> 16 word] \<le> 65535 \<and>
   bestFit 2 (snapshot [(0, 4), (10, 2), (20, 8)]) = Some 10"
proof -
  have h: "length [(0, 4), (10, 2), (20, 8 :: 16 word) :: 16 word \<times> 16 word] \<le> 65535"
    by simp
  from bestFit_smallest_fit [OF h] have
    "bestFit 2 (snapshot [(0, 4), (10, 2), (20, 8)]) = Some 10"
    by blast
  with h show ?thesis by blast
qed

text \<open>
  Claim C6. On the snapshot of at most 65535 holes, for every requested word count:
  if some hole is large enough, worst-fit returns the offset of a hole that is large
  enough, whose length is the largest among the holes that are large enough, and that
  comes first among those of that length (every earlier hole that is large enough is
  strictly shorter); if no hole is large enough it returns the sentinel \<open>- 1\<close>. On the
  holes \<open>[(0,4),(10,2),(20,8)]\<close> and a request of 2 words it returns 20.
\<close>

theorem worstFit_largest_fit:
  assumes "length hs \<le> 65535"
  shows "((\<exists>h \<in> set hs. req \<le> uint (snd h)) \<longrightarrow>
            (\<exists>i < length hs.
               worstFit req (snapshot hs) = Some (uint (fst (hs ! i))) \<and>
               req \<le> uint (snd (hs ! i)) \<and>
               (\<forall>j < length hs. req \<le> uint (snd (hs ! j)) \<longrightarrow> snd (hs ! j) \<le> snd (hs ! i)) \<and>
               (\<forall>j < i. req \<le> uint (snd (hs ! j)) \<longrightarrow> snd (hs ! j) < snd (hs ! i)))) \<and>
         ((\<forall>h \<in> set hs. \<not> req \<le> uint (snd h)) \<longrightarrow> worstFit req (snapshot hs) = Some (- 1)) \<and>
         worstFit 2 (snapshot [(0, 4), (10, 2), (20, 8)]) = Some 20"
proof (intro conjI impI)
  assume "\<exists>h \<in> set hs. req \<le> uint (snd h)"
  then have "\<exists>h \<in> set hs. req \<le> uint (snd h) \<and> - uint (snd h) < 1"
    by (simp only: fits_above_minus1)
  from scan_some [OF this, of "- 1"] obtain i where
    c: "chosen (\<lambda>l. - uint l) req hs 1 i" and
    s: "scan (\<lambda>l. - uint l) req hs (- 1) 1 = uint (fst (hs ! i))"
    by blast
  from c have "i < length hs" by (simp add: chosen_def)
  moreover have "worstFit req (snapshot hs) = Some (uint (fst (hs ! i)))"
    using worstFit_snapshot [OF assms, of req] s by simp
  moreover from c have "req \<le> uint (snd (hs ! i))" by (simp add: chosen_def)
  moreover from c have
    "\<forall>j < length hs. req \<le> uint (snd (hs ! j)) \<longrightarrow> snd (hs ! j) \<le> snd (hs ! i)"
    by (simp add: chosen_def word_le_def)
  moreover from c have "\<forall>j < i. req \<le> uint (snd (hs ! j)) \<longrightarrow> snd (hs ! j) < snd (hs ! i)"
    by (simp add: chosen_def word_less_def)
  ultimately show "\<exists>i < length hs.
       worstFit req (snapshot hs) = Some (uint (fst (hs ! i))) \<and>
       req \<le> uint (snd (hs ! i)) \<and>
       (\<forall>j < length hs. req \<le> uint (snd (hs ! j)) \<longrightarrow> snd (hs ! j) \<le> snd (hs ! i)) \<and>
       (\<forall>j < i. req \<le> uint (snd (hs ! j)) \<longrightarrow> snd (hs ! j) < snd (hs ! i))"
    by blast
next
  assume "\<forall>h \<in> set hs. \<not> req \<le> uint (snd h)"
  then have "scan (\<lambda>l. - uint l) req hs (- 1) 1 = - 1"
    by (intro scan_none) blast
  then show "worstFit req (snapshot hs) = Some (- 1)"
    using worstFit_snapshot [OF assms, of req] by simp
next
  show "worstFit 2 (snapshot [(0, 4), (10, 2), (20, 8)]) = Some 20"
    by code_simp
qed

theorem worstFit_largest_fit_witness:
  "length [(0, 4), (10, 2), (20, 8 :: 16 word) :: 16 word \<times> 16 word] \<le> 65535 \<and>
   worstFit 2 (snapshot [(0, 4), (10, 2), (20, 8)]) = Some 20"
proof -
  have h: "length [(0, 4), (10, 2), (20, 8 :: 16 word) :: 16 word \<times> 16 word] \<le> 65535"
    by simp
  from worstFit_largest_fit [OF h] have
    "worstFit 2 (snapshot [(0, 4), (10, 2), (20, 8)]) = Some 20"
    by blast
  with h show ?thesis by blast
qed

section \<open>Arena lifecycle: the capacity check\<close>

text \<open>
  Claim C1. \<^verbatim>\<open>initialize\<close> throws \<^verbatim>\<open>std::invalid_argument\<close> exactly for the sizes above
  65535. \<^verbatim>\<open>initialize(0)\<close> does not: the guard does not test 0, so the call goes on to
  \<^verbatim>\<open>mmap\<close> with length 0 and throws \<^verbatim>\<open>std::runtime_error\<close> when that fails, or succeeds
  when it does not.
\<close>

theorem initialize_invalid_size:
  "(fst (initialize mmap m n) = Some InvalidArgument) = (65535 < n) \<and>
   fst (initialize mmap m 0) = (if mmap 0 = MAP_FAILED then Some RuntimeError else None)"
  by (simp add: initialize_def Let_def MAX_NUM_WORDS_def)

section \<open>Word conversions\<close>

lemma uint_ucast_32_64: "uint (ucast (x :: 32 word) :: 64 word) = uint x"
  by (simp add: uint_up_ucast is_up)

lemma uint_ucast_64_32: "uint (x :: 64 word) < 2 ^ 32 \<Longrightarrow> uint (ucast x :: 32 word) = uint x"
  by (simp add: unsigned_ucast_eq take_bit_int_eq_self)

lemma uint32_bound: "uint (x :: 32 word) < 4294967296"
  using uint_bounded [of x] by simp

lemma base_plus_offset_nonzero:
  fixes base :: "64 word" and x :: "32 word"
  assumes "base \<noteq> 0" and "base \<le> 0xFFFFFFFF00000000"
  shows "base + ucast x \<noteq> 0"
proof
  assume z: "base + ucast x = 0"
  have b: "uint base \<le> 0xFFFFFFFF00000000"
    using assms(2) by (simp add: word_le_def)
  have p: "0 < uint base"
    using assms(1) by (simp add: word_greater_zero_iff [symmetric] word_less_def)
  have "uint (base + ucast x) = (uint base + uint x) mod 2 ^ 64"
    by (simp add: uint_word_ariths uint_ucast_32_64)
  also have "\<dots> = uint base + uint x"
    using b p uint32_bound [of x] by (intro mod_pos_pos_trivial) simp_all
  finally have "uint base + uint x = 0"
    using z by simp
  moreover have "0 \<le> uint x" by simp
  ultimately show False
    using p by linarith
qed

section \<open>The example states are reachable\<close>

lemmas run_defs =
  initialize_def allocate_def free_def MemoryManager_new_def mmap_ok_def MAX_NUM_WORDS_def
  MAP_FAILED_def getList_def bestFit_def words_of_bytes_def word_offset_of_def Let_def

lemma fresh10_reached:
  "run mmap_ok (MemoryManager_new 1 bestFit) [Initialize 10] = Some fresh10"
  by (simp add: run_defs fresh10_def)

lemma full10_reached:
  "run mmap_ok (MemoryManager_new 1 bestFit) [Initialize 10, Allocate 10] = Some full10"
  by (simp add: run_defs full10_def)

lemma part10_reached:
  "run mmap_ok (MemoryManager_new 1 bestFit) [Initialize 10, Allocate 4] = Some part10"
  by (simp add: run_defs part10_def)

lemma after_2g_reached:
  "run mmap_ok (MemoryManager_new 1 bestFit) [Initialize 10, Allocate 2147483648] = Some after_2g"
  by (simp add: run_defs after_2g_def)

lemma two_holes_reached:
  "run mmap_ok (MemoryManager_new 1 bestFit)
     [Initialize 12, Allocate 4, Allocate 6, Free 65536] = Some two_holes"
  by (simp add: run_defs two_holes_def)

lemma demo32_reached:
  "run mmap_ok (MemoryManager_new 8 bestFit) [Initialize 32, Allocate 32, Allocate 64] =
     Some demo32"
  by (simp add: run_defs demo32_def)

lemma big_words_reached:
  "run mmap_ok (MemoryManager_new 1048576 bestFit) [Initialize 8192, Allocate 4294967296] =
     Some big_words"
  by (simp add: run_defs big_words_def)

section \<open>Allocation: properties\<close>

lemma take_from_hole_None:
  "take_from_hole wo sz hs = None \<longleftrightarrow> (\<forall>h \<in> set hs. offset_H h \<noteq> wo)"
  by (induction hs) auto

lemma length_insert_block: "length (insert_block b bs) = Suc (length bs)"
  by (induction bs) auto

lemma insert_block_neq: "insert_block b bs \<noteq> bs"
proof
  assume "insert_block b bs = bs"
  then have "length (insert_block b bs) = length bs" by simp
  then show False by (simp add: length_insert_block)
qed

text \<open>
  The rounding of \<^verbatim>\<open>allocate\<close> is the ceiling of \<open>sizeInBytes / wordSize\<close> as long as the sum
  does not wrap at 64 bits and the quotient fits 32 bits.
\<close>

lemma words_of_bytes_ceiling:
  assumes ws: "ws \<noteq> 0"
    and sum: "uint n + uint ws - 1 < 2 ^ 64"
    and fits: "(uint n + uint ws - 1) div uint ws < 2 ^ 32"
  shows "uint (words_of_bytes ws n) = (uint n + uint ws - 1) div uint ws"
proof -
  have p: "0 < uint ws"
    using ws by (simp add: word_greater_zero_iff [symmetric] word_less_def)
  have "0 \<le> uint n" by simp
  with p have nn: "0 \<le> uint n + uint ws - 1" by linarith
  have "uint (n + ucast ws - 1) = (uint n + uint ws - 1) mod 2 ^ 64"
    by (simp add: uint_word_ariths uint_ucast_32_64 mod_simps)
  also have "\<dots> = uint n + uint ws - 1"
    using nn sum by (intro mod_pos_pos_trivial) simp_all
  finally have "uint ((n + ucast ws - 1) div ucast ws) = (uint n + uint ws - 1) div uint ws"
    by (simp add: uint_div uint_ucast_32_64)
  with fits show ?thesis
    by (simp add: words_of_bytes_def uint_ucast_64_32)
qed

text \<open>
  \<open>ceil_words\<close> is the ceiling of the quotient: the least word count whose bytes cover the
  request.
\<close>

lemma int_le_div_iff:
  fixes a j w :: int
  assumes "0 < w"
  shows "j \<le> a div w \<longleftrightarrow> j * w \<le> a"
proof
  assume "j \<le> a div w"
  then have "j * w \<le> (a div w) * w"
    using assms by (simp add: mult_right_mono)
  also have "\<dots> = a - a mod w"
    by (simp add: minus_mod_eq_div_mult)
  also have "\<dots> \<le> a"
    using assms by simp
  finally show "j * w \<le> a" .
next
  assume "j * w \<le> a"
  then have "(j * w) div w \<le> a div w"
    using assms by (intro zdiv_mono1)
  then show "j \<le> a div w"
    using assms by simp
qed

lemma ceil_words_least:
  assumes "ws \<noteq> 0"
  shows "ceil_words ws n \<le> k \<longleftrightarrow> uint n \<le> k * uint ws"
proof -
  have p: "0 < uint ws"
    using assms by (simp add: word_greater_zero_iff [symmetric] word_less_def)
  have "k + 1 \<le> ceil_words ws n \<longleftrightarrow> (k + 1) * uint ws \<le> uint n + uint ws - 1"
    unfolding ceil_words_def using p by (rule int_le_div_iff)
  also have "\<dots> \<longleftrightarrow> k * uint ws < uint n"
    by (auto simp: algebra_simps)
  finally show ?thesis by linarith
qed

text \<open>
  Both strategies of the repository answer with the sentinel or with the offset of a
  ledger hole whenever the ledger fits the 16-bit snapshot.
\<close>

lemma offset_round_trip:
  fixes off :: "32 word"
  assumes "off \<le> 65535"
  shows "word_of_int (uint (ucast off :: 16 word)) = off"
proof -
  have "uint off \<le> 65535"
    using assms by (simp add: word_le_def)
  then have "uint (ucast off :: 16 word) = uint off"
    by (simp add: unsigned_ucast_eq take_bit_int_eq_self)
  then show ?thesis by simp
qed

lemma uint_ucast_16_le: "uint (ucast (x :: 32 word) :: 16 word) \<le> uint x"
  by (simp add: unsigned_ucast_eq take_bit_int_less_eq_self_iff)

lemma strategies_choose:
  assumes st: "allocator m = bestFit \<or> allocator m = worstFit"
    and cnt: "length (holeList m) \<le> 65535"
    and offs: "\<forall>h \<in> set (holeList m). offset_H h \<le> 65535"
    and ne: "holeList m \<noteq> []"
  shows "\<exists>list wo. getList m = Some list \<and> allocator m req list = Some wo \<and>
           (wo = - 1 \<or>
            (\<exists>h \<in> set (holeList m). offset_H h = word_of_int wo \<and> req \<le> uint (length_H h)))"
proof -
  let ?hs = "map (\<lambda>h. (ucast (offset_H h), ucast (length_H h))) (holeList m) :: (16 word \<times> 16 word) list"
  have gl: "getList m = Some (snapshot ?hs)"
    using ne by (rule getList_snapshot)
  have len: "length ?hs \<le> 65535"
    using cnt by simp
  have found: "\<exists>h \<in> set (holeList m). offset_H h = word_of_int wo \<and> req \<le> uint (length_H h)"
    if "\<exists>p \<in> set ?hs. wo = uint (fst p) \<and> req \<le> uint (snd p)" for wo
  proof -
    from that obtain h where h: "h \<in> set (holeList m)" and
      wo: "wo = uint (ucast (offset_H h) :: 16 word)" and
      rq: "req \<le> uint (ucast (length_H h) :: 16 word)" by auto
    from offs h have "offset_H h \<le> 65535" by blast
    then have "word_of_int wo = offset_H h"
      unfolding wo by (rule offset_round_trip)
    moreover have "req \<le> uint (length_H h)"
      using rq uint_ucast_16_le [of "length_H h"] by linarith
    ultimately show ?thesis using h by auto
  qed
  from st show ?thesis
  proof
    assume b: "allocator m = bestFit"
    have r: "allocator m req (snapshot ?hs) = Some (scan uint req ?hs (- 1) 65536)"
      unfolding b using len by (rule bestFit_snapshot)
    from scan_result_fits [of uint req ?hs "- 1" 65536] found
    have "scan uint req ?hs (- 1) 65536 = - 1 \<or>
          (\<exists>h \<in> set (holeList m). offset_H h = word_of_int (scan uint req ?hs (- 1) 65536) \<and>
             req \<le> uint (length_H h))"
      by blast
    with gl r show ?thesis by blast
  next
    assume w: "allocator m = worstFit"
    have r: "allocator m req (snapshot ?hs) = Some (scan (\<lambda>l. - uint l) req ?hs (- 1) 1)"
      unfolding w using len by (rule worstFit_snapshot)
    from scan_result_fits [of "\<lambda>l. - uint l" req ?hs "- 1" 1] found
    have "scan (\<lambda>l. - uint l) req ?hs (- 1) 1 = - 1 \<or>
          (\<exists>h \<in> set (holeList m).
             offset_H h = word_of_int (scan (\<lambda>l. - uint l) req ?hs (- 1) 1) \<and>
             req \<le> uint (length_H h))"
      by blast
    with gl r show ?thesis by blast
  qed
qed

text \<open>
  Conversely, when some hole of the ledger is large enough and the lengths fit the 16-bit
  snapshot, neither strategy answers with the sentinel.
\<close>

lemma uint_ucast_16_small:
  fixes x :: "32 word"
  assumes "x \<le> 65535"
  shows "uint (ucast x :: 16 word) = uint x"
proof -
  have "uint x \<le> 65535"
    using assms by (simp add: word_le_def)
  then show ?thesis
    by (simp add: unsigned_ucast_eq take_bit_int_eq_self)
qed

lemma strategies_fit:
  assumes st: "allocator m = bestFit \<or> allocator m = worstFit"
    and cnt: "length (holeList m) \<le> 65535"
    and lens: "\<forall>h \<in> set (holeList m). length_H h \<le> 65535"
    and fit: "\<exists>h \<in> set (holeList m). req \<le> uint (length_H h)"
  shows "\<exists>list wo. getList m = Some list \<and> allocator m req list = Some wo \<and> 0 \<le> wo"
proof -
  let ?hs = "map (\<lambda>h. (ucast (offset_H h), ucast (length_H h))) (holeList m) :: (16 word \<times> 16 word) list"
  from fit have ne: "holeList m \<noteq> []" by auto
  have gl: "getList m = Some (snapshot ?hs)"
    using ne by (rule getList_snapshot)
  have len: "length ?hs \<le> 65535"
    using cnt by simp
  from fit obtain h where h: "h \<in> set (holeList m)" and rq: "req \<le> uint (length_H h)"
    by blast
  from lens h have "length_H h \<le> 65535" by blast
  then have "uint (ucast (length_H h) :: 16 word) = uint (length_H h)"
    by (rule uint_ucast_16_small)
  with rq have rq16: "req \<le> uint (ucast (length_H h) :: 16 word)" by simp
  let ?p = "(ucast (offset_H h), ucast (length_H h)) :: 16 word \<times> 16 word"
  have mem: "?p \<in> set ?hs"
    using h by (simp add: image_iff) blast
  have lt: "uint (snd ?p) < 65536"
    using uint_bounded [of "snd ?p"] by simp
  have nn: "- uint (snd ?p) < 1"
  proof -
    have "0 \<le> uint (snd ?p)" by simp
    then show ?thesis by linarith
  qed
  from rq16 have rq': "req \<le> uint (snd ?p)" by simp
  from st show ?thesis
  proof
    assume b: "allocator m = bestFit"
    have r: "allocator m req (snapshot ?hs) = Some (scan uint req ?hs (- 1) 65536)"
      unfolding b using len by (rule bestFit_snapshot)
    from mem rq' lt have "\<exists>p \<in> set ?hs. req \<le> uint (snd p) \<and> uint (snd p) < 65536"
      by blast
    from scan_some [of ?hs req uint 65536 "- 1", OF this]
    obtain i where "scan uint req ?hs (- 1) 65536 = uint (fst (?hs ! i))" by blast
    then have "0 \<le> scan uint req ?hs (- 1) 65536" by simp
    with gl r show ?thesis by blast
  next
    assume w: "allocator m = worstFit"
    have r: "allocator m req (snapshot ?hs) = Some (scan (\<lambda>l. - uint l) req ?hs (- 1) 1)"
      unfolding w using len by (rule worstFit_snapshot)
    from mem rq' nn have "\<exists>p \<in> set ?hs. req \<le> uint (snd p) \<and> - uint (snd p) < 1"
      by blast
    from scan_some [of ?hs req "\<lambda>l. - uint l" 1 "- 1", OF this]
    obtain i where "scan (\<lambda>l. - uint l) req ?hs (- 1) 1 = uint (fst (?hs ! i))" by blast
    then have "0 \<le> scan (\<lambda>l. - uint l) req ?hs (- 1) 1" by simp
    with gl r show ?thesis by blast
  qed
qed

text \<open>
  Claim C4. On the freshly initialized 10-word arena with one-byte words, a request of
  \<open>2^32\<close> bytes is rounded to 0 words, not to \<open>2^32\<close>: best-fit is asked for 0 words and
  chooses the hole at offset 0, a block of length 0 is recorded, the hole is neither
  removed nor shrunk, and the arena's base address is returned.
\<close>

theorem allocate_huge_request:
  "words_of_bytes (wordSize fresh10) 4294967296 = 0 \<and>
   map_option (map_prod id ledgers) (allocate fresh10 4294967296) =
     Some (65536, [\<lparr>offset_H = 0, length_H = 10\<rparr>], [\<lparr>offset_B = 0, length_B = 0\<rparr>])"
  by code_simp

text \<open>
  The byte offset \<^verbatim>\<open>wordOffset * wordSize\<close> is computed in 32 bits as well: on the 8 GiB
  arena the block at word 4096 gets the base address, which the block at word 0 already
  has.
\<close>

lemma allocate_address_wraps:
  "map_option (map_prod id ledgers) (allocate big_words 1) =
     Some (65536,
           [\<lparr>offset_H = 4097, length_H = 4095\<rparr>],
           [\<lparr>offset_B = 0, length_B = 4096\<rparr>, \<lparr>offset_B = 4096, length_B = 1\<rparr>])"
  by code_simp

text \<open>
  The null results of \<open>allocate\<close>, as the code has them. For a word size of at least 1 and
  a strategy that returns when consulted, \<open>allocate\<close> returns; it returns null with both
  ledgers unchanged in exactly five cases: \<open>sizeInBytes = 0\<close>, no arena is live, the Hole
  Ledger is empty, the strategy answers with the sentinel, or it answers with an offset at
  which no hole of the ledger starts.
\<close>

lemma allocate_null_iff:
  assumes ws: "wordSize m \<noteq> 0" and ans: "holeList m \<noteq> [] \<Longrightarrow> strategy_answer m n = Some wo"
  shows "\<exists>a m'. allocate m n = Some (a, m') \<and>
           ((a = 0 \<and> ledgers m' = ledgers m) \<longleftrightarrow>
              (n = 0 \<or> memoryStart m = 0 \<or> holeList m = [] \<or> wo = - 1 \<or>
               (\<forall>h \<in> set (holeList m). offset_H h \<noteq> word_of_int wo)))"
proof (cases "memoryStart m = 0 \<or> n = 0")
  case True
  then have "allocate m n = Some (0, m)" by (simp add: allocate_def)
  with True show ?thesis by auto
next
  case live: False
  show ?thesis
  proof (cases "holeList m = []")
    case True
    then have "allocate m n = Some (0, m)"
      using live ws by (simp add: allocate_def getList_def)
    with True show ?thesis by auto
  next
    case holes: False
    then obtain list where gl: "getList m = Some list"
      by (simp add: getList_def)
    from ans [OF holes] gl have
      st: "allocator m (sint (words_of_bytes (wordSize m) n)) list = Some wo"
      by (simp add: strategy_answer_def)
    let ?th = "take_from_hole (word_of_int wo) (words_of_bytes (wordSize m) n) (holeList m)"
    show ?thesis
    proof (cases "wo = - 1 \<or> ?th = None")
      case True
      then have "allocate m n = Some (0, m)"
        using live ws gl st by (auto simp: allocate_def Let_def)
      with True show ?thesis by (auto simp: take_from_hole_None)
    next
      case False
      then obtain hs where th: "?th = Some hs"
        by blast
      let ?a = "memoryStart m + ucast (word_of_int wo * wordSize m)"
      let ?m' = "m\<lparr>allocatedList :=
                     insert_block \<lparr>offset_B = word_of_int wo,
                                   length_B = words_of_bytes (wordSize m) n\<rparr> (allocatedList m),
                   holeList := hs\<rparr>"
      have res: "allocate m n = Some (?a, ?m')"
        using live ws gl st False th by (simp add: allocate_def)
      have changed: "ledgers ?m' \<noteq> ledgers m"
        by (simp add: ledgers_def insert_block_neq)
      from False have "wo \<noteq> - 1" and "\<not> (\<forall>h \<in> set (holeList m). offset_H h \<noteq> word_of_int wo)"
        by (simp_all add: take_from_hole_None)
      then show ?thesis
        using res changed live holes by auto
    qed
  qed
qed

text \<open>
  Claim C7. On the freshly initialized 10-word arena with one-byte words, the requested
  word count of \<^verbatim>\<open>allocate(4294967296)\<close> is \<open>2^32\<close>, and best-fit, asked for that count on the
  snapshot of the ledger, reports that no hole is large enough. But \<open>allocate\<close> consults it
  for the count narrowed to 32 bits, which is 0, gets offset 0, returns the arena's base
  address instead of null and records a block of length 0 in the Allocation Ledger.
\<close>

theorem allocate_nonnull_without_fit:
  "memoryStart fresh10 = 65536 \<and> holeList fresh10 = [\<lparr>offset_H = 0, length_H = 10\<rparr>] \<and>
   allocatedList fresh10 = [] \<and>
   ceil_words (wordSize fresh10) 4294967296 = 4294967296 \<and>
   map_option (allocator fresh10 (ceil_words (wordSize fresh10) 4294967296)) (getList fresh10) =
     Some (Some (- 1)) \<and>
   strategy_answer fresh10 4294967296 = Some 0 \<and>
   map_option (map_prod id ledgers) (allocate fresh10 4294967296) =
     Some (65536, [\<lparr>offset_H = 0, length_H = 10\<rparr>], [\<lparr>offset_B = 0, length_B = 0\<rparr>])"
  by code_simp

text \<open>
  In the other direction, after \<^verbatim>\<open>initialize(10)\<close> and \<^verbatim>\<open>allocate(2147483648)\<close> a request of one
  byte gets null although best-fit answered with offset 0 and not with the sentinel: the
  snapshot holds the hole's offset \<open>2^31\<close> truncated to 16 bits, no hole of the ledger starts
  at 0, and the loop over the ledger falls through to the final \<^verbatim>\<open>return nullptr\<close>.
\<close>

lemma allocate_null_after_wrap:
  "memoryStart after_2g = 65536 \<and> strategy_answer after_2g 1 = Some 0 \<and>
   map_option (map_prod id ledgers) (allocate after_2g 1) = Some (0, ledgers after_2g)"
  by code_simp

section \<open>Deallocation: properties\<close>

lemma erase_block_None:
  "erase_block q bs = None \<longleftrightarrow> (\<forall>b \<in> set bs. offset_B b \<noteq> q)"
  by (induction bs) auto

lemma erase_block_Some:
  "erase_block q bs = Some (len, rest) \<Longrightarrow>
   \<exists>pre b post. bs = pre @ b # post \<and> (\<forall>x \<in> set pre. offset_B x \<noteq> q) \<and>
      offset_B b = q \<and> len = length_B b \<and> rest = pre @ post"
proof (induction bs arbitrary: rest)
  case Nil
  then show ?case by simp
next
  case (Cons c bs)
  show ?case
  proof (cases "offset_B c = q")
    case True
    with Cons.prems have "len = length_B c" and "rest = bs" by simp_all
    with True show ?thesis by (intro exI [of _ "[]"] exI [of _ c] exI [of _ bs]) simp
  next
    case False
    with Cons.prems obtain r where e: "erase_block q bs = Some (len, r)" and r: "rest = c # r"
      by auto
    from Cons.IH [OF e] obtain pre b post where
      "bs = pre @ b # post" "\<forall>x \<in> set pre. offset_B x \<noteq> q" "offset_B b = q"
      "len = length_B b" "r = pre @ post"
      by blast
    with False r show ?thesis
      by (intro exI [of _ "c # pre"] exI [of _ b] exI [of _ post]) simp
  qed
qed

lemma word_offset_of_floor:
  assumes ws: "wordSize m \<noteq> 0" and lo: "0 \<le> floor_offset m a" and hi: "floor_offset m a < 2 ^ 32"
  shows "uint (word_offset_of m a) = floor_offset m a"
proof -
  have p: "0 < uint (wordSize m)"
    using ws by (simp add: word_greater_zero_iff [symmetric] word_less_def)
  from lo p have "0 \<le> uint a - uint (memoryStart m)"
    by (simp add: floor_offset_def pos_imp_zdiv_nonneg_iff)
  then have "uint (a - memoryStart m) = uint a - uint (memoryStart m)"
    by (simp add: uint_sub_lem [symmetric])
  then have q: "uint ((a - memoryStart m) div ucast (wordSize m)) = floor_offset m a"
    by (simp add: uint_div uint_ucast_32_64 floor_offset_def)
  with hi show ?thesis
    by (simp add: word_offset_of_def uint_ucast_64_32)
qed

text \<open>Every address inside the arena has its quotient in that range.\<close>

lemma floor_offset_in_arena:
  assumes ws: "wordSize m \<noteq> 0" and cap: "capacityWords m \<le> 65535"
    and lo: "memoryStart m \<le> a" and hi: "uint a - uint (memoryStart m) < uint (memoryLimit m)"
  shows "0 \<le> floor_offset m a" and "floor_offset m a < 2 ^ 32"
proof -
  have p: "0 < uint (wordSize m)"
    using ws by (simp add: word_greater_zero_iff [symmetric] word_less_def)
  have nn: "0 \<le> uint a - uint (memoryStart m)"
    using lo by (simp add: word_le_def)
  with p show "0 \<le> floor_offset m a"
    by (simp add: floor_offset_def pos_imp_zdiv_nonneg_iff)
  have "floor_offset m a \<le> uint (memoryLimit m) div uint (wordSize m)"
    unfolding floor_offset_def using hi p by (intro zdiv_mono1) simp_all
  also have "\<dots> = int (capacityWords m)"
    by (simp add: capacityWords_def zdiv_int)
  also have "\<dots> \<le> 65535"
    using cap by simp
  finally show "floor_offset m a < 2 ^ 32" by simp
qed

text \<open>
  Claim C10, amended. For a live arena, a word size of at least 1, allocations of positive
  length and a non-null address whose quotient \<open>floor ((a - memoryStart) / wordSize)\<close> lies
  in \<open>[0, 2^32)\<close> (as it does for every address inside the arena): if the quotient is the
  offset of an allocation, \<open>free\<close> removes the first such allocation from the Allocation
  Ledger, inserts its whole extent into the Hole Ledger in offset order and coalesces;
  if it is the offset of no allocation, the state is left unchanged.
\<close>

theorem free_by_word_offset:
  assumes live: "memoryStart m \<noteq> 0" and nonnull: "a \<noteq> 0" and ws: "wordSize m \<noteq> 0"
    and lo: "0 \<le> floor_offset m a" and hi: "floor_offset m a < 2 ^ 32"
    and pos: "\<forall>b \<in> set (allocatedList m). length_B b \<noteq> 0"
  shows "((\<exists>b \<in> set (allocatedList m). uint (offset_B b) = floor_offset m a) \<longrightarrow>
            (\<exists>pre b post.
               allocatedList m = pre @ b # post \<and>
               (\<forall>x \<in> set pre. uint (offset_B x) \<noteq> floor_offset m a) \<and>
               uint (offset_B b) = floor_offset m a \<and>
               free m a =
                 Some (m\<lparr>allocatedList := pre @ post,
                         holeList :=
                           mergeHoles
                             (insert_hole \<lparr>offset_H = offset_B b, length_H = length_B b\<rparr>
                                (holeList m))\<rparr>))) \<and>
         ((\<forall>b \<in> set (allocatedList m). uint (offset_B b) \<noteq> floor_offset m a) \<longrightarrow>
            free m a = Some m)"
proof -
  let ?q = "word_offset_of m a"
  have q: "uint ?q = floor_offset m a"
    using ws lo hi by (rule word_offset_of_floor)
  have eq: "offset_B b = ?q \<longleftrightarrow> uint (offset_B b) = floor_offset m a" for b
    using q by (metis word_uint_eq_iff)
  show ?thesis
  proof (intro conjI impI)
    assume "\<exists>b \<in> set (allocatedList m). uint (offset_B b) = floor_offset m a"
    then have "erase_block ?q (allocatedList m) \<noteq> None"
      by (simp add: erase_block_None eq)
    then obtain len rest where e: "erase_block ?q (allocatedList m) = Some (len, rest)"
      by auto
    from erase_block_Some [OF e] obtain pre b post where
      sp: "allocatedList m = pre @ b # post" and
      pre: "\<forall>x \<in> set pre. offset_B x \<noteq> ?q" and
      b: "offset_B b = ?q" and len: "len = length_B b" and rest: "rest = pre @ post"
      by blast
    from sp pos have "length_B b \<noteq> 0" by simp
    then have "free m a =
        Some (m\<lparr>allocatedList := pre @ post,
                holeList :=
                  mergeHoles
                    (insert_hole \<lparr>offset_H = offset_B b, length_H = length_B b\<rparr> (holeList m))\<rparr>)"
      using live nonnull ws e len rest b by (simp add: free_def)
    with sp pre b show "\<exists>pre b post.
               allocatedList m = pre @ b # post \<and>
               (\<forall>x \<in> set pre. uint (offset_B x) \<noteq> floor_offset m a) \<and>
               uint (offset_B b) = floor_offset m a \<and>
               free m a =
                 Some (m\<lparr>allocatedList := pre @ post,
                         holeList :=
                           mergeHoles
                             (insert_hole \<lparr>offset_H = offset_B b, length_H = length_B b\<rparr>
                                (holeList m))\<rparr>)"
      by (auto simp: eq)
  next
    assume "\<forall>b \<in> set (allocatedList m). uint (offset_B b) \<noteq> floor_offset m a"
    then have "erase_block ?q (allocatedList m) = None"
      by (simp add: erase_block_None eq)
    then show "free m a = Some m"
      using live nonnull ws by (simp add: free_def)
  qed
qed

text \<open>
  The witness frees an address 5 bytes into the first 8-byte word of the block at word 4.
\<close>

theorem free_by_word_offset_witness:
  "memoryStart demo32 \<noteq> 0 \<and> (65573 :: 64 word) \<noteq> 0 \<and> wordSize demo32 \<noteq> 0 \<and>
   0 \<le> floor_offset demo32 65573 \<and> floor_offset demo32 65573 < 2 ^ 32 \<and>
   list_all (\<lambda>b. length_B b \<noteq> 0) (allocatedList demo32) \<and>
   floor_offset demo32 65573 = 4 \<and>
   map_option ledgers (free demo32 65573) =
     Some ([\<lparr>offset_H = 4, length_H = 28\<rparr>], [\<lparr>offset_B = 0, length_B = 4\<rparr>])"
proof -
  have live: "memoryStart demo32 \<noteq> 0" by (simp add: demo32_def)
  have nonnull: "(65573 :: 64 word) \<noteq> 0" by simp
  have ws: "wordSize demo32 \<noteq> 0" by (simp add: demo32_def)
  have q: "floor_offset demo32 65573 = 4" by (simp add: floor_offset_def demo32_def)
  have lo: "0 \<le> floor_offset demo32 65573" by (simp add: q)
  have hi: "floor_offset demo32 65573 < 2 ^ 32" by (simp add: q)
  have pos: "\<forall>b \<in> set (allocatedList demo32). length_B b \<noteq> 0" by (simp add: demo32_def)
  have al: "allocatedList demo32 = [\<lparr>offset_B = 0, length_B = 4\<rparr>, \<lparr>offset_B = 4, length_B = 8\<rparr>]"
    by (simp add: demo32_def)
  have ex: "\<exists>b \<in> set (allocatedList demo32). uint (offset_B b) = floor_offset demo32 65573"
    by (simp add: q al)
  from free_by_word_offset [OF live nonnull ws lo hi pos] ex obtain pre b post where
    sp: "allocatedList demo32 = pre @ b # post" and
    pre: "\<forall>x \<in> set pre. uint (offset_B x) \<noteq> floor_offset demo32 65573" and
    b: "uint (offset_B b) = floor_offset demo32 65573" and
    fr: "free demo32 65573 =
           Some (demo32\<lparr>allocatedList := pre @ post,
                   holeList :=
                     mergeHoles
                       (insert_hole \<lparr>offset_H = offset_B b, length_H = length_B b\<rparr>
                          (holeList demo32))\<rparr>)"
    by blast
  from sp pre b have
    "pre = [\<lparr>offset_B = 0, length_B = 4\<rparr>] \<and> post = [] \<and> b = \<lparr>offset_B = 4, length_B = 8\<rparr>"
    by (auto simp: q al Cons_eq_append_conv)
  with fr have "map_option ledgers (free demo32 65573) =
      Some ([\<lparr>offset_H = 4, length_H = 28\<rparr>], [\<lparr>offset_B = 0, length_B = 4\<rparr>])"
    by (simp add: ledgers_def demo32_def)
  with live nonnull ws lo hi pos q show ?thesis
    by (simp add: list_all_iff)
qed

text \<open>
  Claim C10 as stated fails for an address \<open>2^32\<close> bytes above the base: the quotient
  \<open>2^32\<close> is the offset of no allocation, yet the conversion to \<^verbatim>\<open>unsigned int\<close> turns it
  into 0 and the block at offset 0 is freed.
\<close>

theorem free_far_address_counterexample:
  "floor_offset part10 4295032832 = 4294967296 \<and>
   allocatedList part10 = [\<lparr>offset_B = 0, length_B = 4\<rparr>] \<and>
   memoryStart part10 = 65536 \<and> wordSize part10 = 1 \<and>
   ledgers part10 = ([\<lparr>offset_H = 4, length_H = 6\<rparr>], [\<lparr>offset_B = 0, length_B = 4\<rparr>]) \<and>
   map_option ledgers (free part10 4295032832) = Some ([\<lparr>offset_H = 0, length_H = 10\<rparr>], [])"
  by (simp add: floor_offset_def part10_def free_def word_offset_of_def ledgers_def)

text \<open>
  Claim C8. On the freshly initialized 10-word arena with one-byte words,
  \<^verbatim>\<open>allocate(2^32)\<close> returns the non-null base address, and freeing that address leaves a
  Hole Ledger of two holes, \<open>(0,0)\<close> and \<open>(0,10)\<close>, instead of the single hole \<open>(0,10)\<close> it
  had before.
\<close>

theorem round_trip_broken:
  "map_option fst (allocate fresh10 4294967296) = Some 65536 \<and>
   holeList fresh10 = [\<lparr>offset_H = 0, length_H = 10\<rparr>] \<and>
   map_option holeList (alloc_then_free fresh10 4294967296) =
     Some [\<lparr>offset_H = 0, length_H = 0\<rparr>, \<lparr>offset_H = 0, length_H = 10\<rparr>]"
  by code_simp

section \<open>Ledger invariants on a sequence of calls\<close>

text \<open>
  Claim C2. After \<^verbatim>\<open>initialize(10)\<close>, \<^verbatim>\<open>allocate(2^32)\<close>, the release of the returned
  address and \<^verbatim>\<open>allocate(3)\<close> on a best-fit manager with one-byte words, word 0 lies in two
  extents: the block \<open>(0,3)\<close> and the hole \<open>(0,10)\<close>.
\<close>

theorem tiling_broken:
  "run mmap_ok (MemoryManager_new 1 bestFit)
     [Initialize 10, Allocate 4294967296, Free 65536, Allocate 3] = Some word_covered_twice \<and>
   cover_count word_covered_twice 0 = 2"
  by (simp add: run_defs word_covered_twice_def cover_count_def covers_def)

text \<open>
  Claim C3. After the same calls followed by \<^verbatim>\<open>allocate(1)\<close> and the release of the
  returned address, the Hole Ledger holds \<open>(0,1)\<close> and \<open>(1,9)\<close>: two holes with
  \<open>0 < 1\<close> and \<open>0 + 1 = 1\<close>, adjacent right after a \<open>free\<close>.
\<close>

theorem adjacency_after_free:
  "map_option holeList
     (run mmap_ok (MemoryManager_new 1 bestFit)
        [Initialize 10, Allocate 4294967296, Free 65536, Allocate 3, Allocate 1, Free 65536]) =
     Some [\<lparr>offset_H = 0, length_H = 1\<rparr>, \<lparr>offset_H = 3, length_H = 4294967293\<rparr>,
           \<lparr>offset_H = 1, length_H = 9\<rparr>]"
  by code_simp

section \<open>Dumping: the status returned\<close>

text \<open>
  Claim C9. With two holes in the ledger and a file system on which the \<^verbatim>\<open>write\<close> of
  the delimiter fails, \<^verbatim>\<open>dumpMemoryMap\<close> returns 0, the success status, and the file holds
  the two entries without the delimiter.
\<close>

theorem dump_ignores_delimiter_failure:
  "write_result fs_delim_fails 1 = - 1 \<and>
   dumpMemoryMap fs_delim_fails two_holes = (0, Some ''[0, 4][10, 2]'')"
  by code_simp

section \<open>The invariants along exact requests\<close>

text \<open>
  The rest of the theory shows that the defects of the integer conversions are the only
  way to break the ledger invariants: from a well-formed state, \<open>initialize\<close>, \<open>free\<close> with
  any address and \<open>allocate\<close> with an exact request all return and lead to a well-formed
  state.
\<close>

subsection \<open>Counting extents\<close>

lemma cover_count_alt:
  "cover_count m w = hole_count (holeList m) w + block_count (allocatedList m) w"
  by (simp add: cover_count_def hole_count_def block_count_def in_hole_def in_block_def)

lemma hole_count_simps [simp]:
  "hole_count [] w = 0"
  "hole_count (h # hs) w = (if in_hole h w then 1 else 0) + hole_count hs w"
  "hole_count (xs @ ys) w = hole_count xs w + hole_count ys w"
  by (simp_all add: hole_count_def)

lemma block_count_simps [simp]:
  "block_count [] w = 0"
  "block_count (b # bs) w = (if in_block b w then 1 else 0) + block_count bs w"
  "block_count (xs @ ys) w = block_count xs w + block_count ys w"
  by (simp_all add: block_count_def)

lemma block_count_insert:
  "block_count (insert_block b bs) w = (if in_block b w then 1 else 0) + block_count bs w"
  by (induction bs) simp_all

lemma hole_count_insert:
  "hole_count (insert_hole h hs) w = (if in_hole h w then 1 else 0) + hole_count hs w"
  by (induction hs) simp_all

lemma set_insert_block: "set (insert_block b bs) = insert b (set bs)"
  by (induction bs) auto

lemma set_insert_hole: "set (insert_hole h hs) = insert h (set hs)"
  by (induction hs) auto

lemma take_from_hole_Some:
  "take_from_hole wo r hs = Some hs' \<Longrightarrow>
   \<exists>pre h post. hs = pre @ h # post \<and> (\<forall>x \<in> set pre. offset_H x \<noteq> wo) \<and> offset_H h = wo \<and>
      hs' = pre @ (if length_H h = r then []
                   else [h\<lparr>offset_H := offset_H h + r, length_H := length_H h - r\<rparr>]) @ post"
proof (induction hs arbitrary: hs')
  case Nil
  then show ?case by simp
next
  case (Cons c hs)
  show ?case
  proof (cases "offset_H c = wo")
    case True
    with Cons.prems have
      "hs' = [] @ (if length_H c = r then []
                  else [c\<lparr>offset_H := offset_H c + r, length_H := length_H c - r\<rparr>]) @ hs"
      by auto
    with True show ?thesis
      by (intro exI [of _ "[]"] exI [of _ c] exI [of _ hs]) simp
  next
    case False
    with Cons.prems obtain t where e: "take_from_hole wo r hs = Some t" and t: "hs' = c # t"
      by auto
    from Cons.IH [OF e] obtain pre h post where
      "hs = pre @ h # post" "\<forall>x \<in> set pre. offset_H x \<noteq> wo" "offset_H h = wo"
      "t = pre @ (if length_H h = r then []
                  else [h\<lparr>offset_H := offset_H h + r, length_H := length_H h - r\<rparr>]) @ post"
      by blast
    with False t show ?thesis
      by (intro exI [of _ "c # pre"] exI [of _ h] exI [of _ post]) simp
  qed
qed

lemma erase_inserted_block:
  "erase_block (offset_B b) (insert_block b bs) = Some (length_B b, bs)"
  by (induction bs) auto

lemma insert_hole_after:
  "\<forall>x \<in> set pre. offset_H x < offset_H hb \<Longrightarrow>
   insert_hole hb (pre @ ys) = pre @ insert_hole hb ys"
  by (induction pre) auto

lemma insert_hole_front:
  "\<forall>y \<in> set ys. \<not> offset_H y < offset_H hb \<Longrightarrow> insert_hole hb ys = hb # ys"
  by (cases ys) auto

lemma unat32_bound: "unat (x :: 32 word) < 4294967296"
  using unsigned_less [of x, where 'a = nat] by simp

lemma unat_ucast_32_64: "unat (ucast (x :: 32 word) :: 64 word) = unat x"
proof -
  have "unat (ucast x :: 64 word) = nat (uint (ucast x :: 64 word))"
    by (rule unat_eq_nat_uint)
  also have "\<dots> = nat (uint x)"
    by (simp only: uint_ucast_32_64)
  also have "\<dots> = unat x"
    by (rule unat_eq_nat_uint [symmetric])
  finally show ?thesis .
qed

lemma unat_ucast_64_32:
  "unat (x :: 64 word) \<le> 65535 \<Longrightarrow> unat (ucast x :: 32 word) = unat x"
  by (simp add: unsigned_ucast_eq take_bit_nat_eq_self)

lemma unat_ucast_64_32_small:
  "unat (x :: 64 word) < 2 ^ 32 \<Longrightarrow> unat (ucast x :: 32 word) = unat x"
  by (simp add: unsigned_ucast_eq take_bit_nat_eq_self)

lemma unat_capacity_bytes:
  fixes n :: "64 word" and ws :: "32 word"
  assumes "unat n \<le> 65535"
  shows "unat (n * ucast ws) = unat n * unat ws"
proof -
  have "unat n * unat ws \<le> 65535 * unat ws"
    using assms by (rule mult_le_mono1)
  also have "\<dots> < 65535 * 4294967296"
    using unat32_bound [of ws] by simp
  finally have "unat n * unat (ucast ws :: 64 word) < 2 ^ 64"
    by (simp add: unat_ucast_32_64)
  then have "unat (n * ucast ws) = unat n * unat (ucast ws :: 64 word)"
    by (simp add: unat_mult_lem [THEN iffD1])
  then show ?thesis by (simp add: unat_ucast_32_64)
qed

lemma word_offset_of_returned:
  fixes off ws :: "32 word"
  assumes ws: "ws \<noteq> 0" and small: "unat off * unat ws < 2 ^ 32"
  shows "(ucast ((ucast (off * ws) :: 64 word) div ucast ws) :: 32 word) = off"
proof -
  have m: "unat (off * ws) = unat off * unat ws"
    using small by (simp add: unat_mult_lem [THEN iffD1])
  have p: "0 < unat ws"
    using ws by (simp add: unat_gt_0)
  have "unat ((ucast (off * ws) :: 64 word) div ucast ws) = unat off * unat ws div unat ws"
    by (simp add: unat_div unat_ucast_32_64 m)
  also have "\<dots> = unat off"
    using p by simp
  finally have q: "unat ((ucast (off * ws) :: 64 word) div ucast ws) = unat off" .
  then have "unat ((ucast (off * ws) :: 64 word) div ucast ws) < 2 ^ 32"
    using unat32_bound [of off] by simp
  then have "unat (ucast ((ucast (off * ws) :: 64 word) div ucast ws) :: 32 word) = unat off"
    using q by (simp add: unat_ucast_64_32_small)
  then show ?thesis
    by (simp add: word_unat_eq_iff)
qed

lemma sint_small:
  fixes r :: "32 word"
  assumes "uint r < 2 ^ 31"
  shows "sint r = uint r"
proof -
  have "sint r = signed_take_bit 31 (uint r)"
    by (simp add: sint_uint)
  also have "\<dots> = uint r"
  proof (rule signed_take_bit_int_eq_self)
    have "- (2 ^ 31) \<le> (0 :: int)" by simp
    also have "0 \<le> uint r" by simp
    finally show "- (2 ^ 31) \<le> uint r" .
    show "uint r < 2 ^ 31" by fact
  qed
  finally show ?thesis .
qed

lemma covers_split:
  fixes off len r :: "32 word"
  assumes nowrap: "unat off + unat len < 2 ^ 32" and le: "r \<le> len"
  shows "(if covers off r w then 1 else 0) + (if covers (off + r) (len - r) w then 1 else 0) =
         (if covers off len w then 1 else (0 :: nat))"
proof -
  have rl: "unat r \<le> unat len"
    using le by (simp add: word_le_nat_alt)
  have "unat off + unat r < 2 ^ 32"
    using nowrap rl by simp
  then have a: "unat (off + r) = unat off + unat r"
    by (simp add: unat_add_lem [THEN iffD1])
  have s: "unat (len - r) = unat len - unat r"
    using le by (simp add: unat_sub)
  show ?thesis
    unfolding covers_def a s using rl by auto
qed

lemma covers_join:
  fixes o1 l1 l2 :: "32 word"
  assumes "unat o1 + unat l1 + unat l2 < 2 ^ 32"
  shows "(if covers o1 (l1 + l2) w then 1 else 0) =
         (if covers o1 l1 w then 1 else 0) + (if covers (o1 + l1) l2 w then 1 else (0 :: nat))"
proof -
  have a: "unat (o1 + l1) = unat o1 + unat l1"
    using assms by (simp add: unat_add_lem [THEN iffD1])
  have b: "unat (l1 + l2) = unat l1 + unat l2"
    using assms by (simp add: unat_add_lem [THEN iffD1])
  show ?thesis
    unfolding covers_def a b by auto
qed

lemma covers_last:
  "len \<noteq> 0 \<Longrightarrow> covers off len (unat off + unat len - 1)"
  by (simp add: covers_def unat_gt_0 [symmetric])

lemma covers_first: "len \<noteq> 0 \<Longrightarrow> covers off len (unat off)"
  by (simp add: covers_def unat_gt_0)

lemma hole_count_mem: "h \<in> set hs \<Longrightarrow> in_hole h w \<Longrightarrow> 1 \<le> hole_count hs w"
  by (induction hs) auto

lemma block_count_mem: "b \<in> set bs \<Longrightarrow> in_block b w \<Longrightarrow> 1 \<le> block_count bs w"
  by (induction bs) auto

subsection \<open>Consequences of the invariant\<close>

lemma tiled_hole_within:
  assumes "tiled m" and "h \<in> set (holeList m)" and "length_H h \<noteq> 0"
  shows "unat (offset_H h) + unat (length_H h) \<le> capacityWords m"
proof -
  let ?w = "unat (offset_H h) + unat (length_H h) - 1"
  have "covers (offset_H h) (length_H h) ?w"
    using assms(3) by (rule covers_last)
  then have "in_hole h ?w"
    by (simp only: in_hole_def)
  with assms(2) have "1 \<le> hole_count (holeList m) ?w"
    by (rule hole_count_mem)
  then have "1 \<le> cover_count m ?w"
    by (simp add: cover_count_alt)
  with assms(1) have "?w < capacityWords m"
    by (simp add: tiled_def split: if_splits)
  moreover have "0 < unat (length_H h)"
    using assms(3) by (simp add: unat_gt_0)
  ultimately show ?thesis by linarith
qed

lemma tiled_block_within:
  assumes "tiled m" and "b \<in> set (allocatedList m)" and "length_B b \<noteq> 0"
  shows "unat (offset_B b) + unat (length_B b) \<le> capacityWords m"
proof -
  let ?w = "unat (offset_B b) + unat (length_B b) - 1"
  have "covers (offset_B b) (length_B b) ?w"
    using assms(3) by (rule covers_last)
  then have "in_block b ?w"
    by (simp only: in_block_def)
  with assms(2) have "1 \<le> block_count (allocatedList m) ?w"
    by (rule block_count_mem)
  then have "1 \<le> cover_count m ?w"
    by (simp add: cover_count_alt)
  with assms(1) have "?w < capacityWords m"
    by (simp add: tiled_def split: if_splits)
  moreover have "0 < unat (length_B b)"
    using assms(3) by (simp add: unat_gt_0)
  ultimately show ?thesis by linarith
qed

lemma hole_unique:
  assumes t: "tiled m" and sp: "holeList m = pre @ h # post"
    and x: "x \<in> set pre \<union> set post"
    and ph: "length_H h \<noteq> 0" and px: "length_H x \<noteq> 0"
  shows "offset_H x \<noteq> offset_H h"
proof
  assume eq: "offset_H x = offset_H h"
  let ?w = "unat (offset_H h)"
  have h: "in_hole h ?w"
    using ph by (simp add: in_hole_def covers_first)
  have "in_hole x ?w"
    using px eq [symmetric] by (simp add: in_hole_def covers_first)
  with x have "1 \<le> hole_count pre ?w + hole_count post ?w"
    using hole_count_mem [of x pre ?w] hole_count_mem [of x post ?w] by auto
  with h have "2 \<le> hole_count (holeList m) ?w"
    by (simp add: sp)
  then have "2 \<le> cover_count m ?w"
    by (simp add: cover_count_alt)
  with t show False
    by (simp add: tiled_def split: if_splits)
qed

lemma tiled_disjoint:
  assumes t: "tiled m" and x: "x \<in> set (holeList m)" and b: "b \<in> set (allocatedList m)"
  shows "\<not> (in_hole x w \<and> in_block b w)"
proof
  assume "in_hole x w \<and> in_block b w"
  then have "1 \<le> hole_count (holeList m) w" and "1 \<le> block_count (allocatedList m) w"
    using hole_count_mem [OF x, of w] block_count_mem [OF b, of w] by blast+
  then have "2 \<le> cover_count m w"
    by (simp add: cover_count_alt)
  with t show False
    by (simp add: tiled_def split: if_splits)
qed

lemma holes_fit:
  assumes "tiled m" and "positive_extents m"
  shows "list_all (fits_in (capacityWords m)) (holeList m)"
  using assms by (simp add: list_all_iff fits_in_def positive_extents_def tiled_hole_within)

lemma in_hole_witness_sum:
  assumes "fits_in cap h"
  shows "1 \<le> (\<Sum>w < cap. if in_hole h w then 1 else (0 :: nat))"
proof -
  let ?f = "\<lambda>w. if in_hole h w then 1 else (0 :: nat)"
  have pos: "0 < unat (length_H h)"
    using assms by (simp add: fits_in_def unat_gt_0)
  then have mem: "unat (offset_H h) \<in> {..<cap}"
    using assms by (simp add: fits_in_def)
  have "in_hole h (unat (offset_H h))"
    using assms by (simp add: in_hole_def fits_in_def covers_first)
  then have "?f (unat (offset_H h)) = 1" by simp
  moreover have "?f (unat (offset_H h)) \<le> sum ?f {..<cap}"
    using mem by (intro member_le_sum) simp_all
  ultimately show ?thesis by simp
qed

lemma length_le_hole_count_sum:
  "list_all (fits_in cap) hs \<Longrightarrow> length hs \<le> (\<Sum>w < cap. hole_count hs w)"
proof (induction hs)
  case Nil
  then show ?case by simp
next
  case (Cons h hs)
  then have "length hs \<le> (\<Sum>w < cap. hole_count hs w)" and f: "fits_in cap h"
    by simp_all
  moreover have "(\<Sum>w < cap. hole_count (h # hs) w) =
      (\<Sum>w < cap. if in_hole h w then 1 else 0) + (\<Sum>w < cap. hole_count hs w)"
    by (simp add: sum.distrib)
  ultimately show ?case
    using in_hole_witness_sum [OF f] by simp
qed

lemma hole_ledger_length:
  assumes t: "tiled m" and p: "positive_extents m"
  shows "length (holeList m) \<le> capacityWords m"
proof -
  have "length (holeList m) \<le> (\<Sum>w < capacityWords m. hole_count (holeList m) w)"
    using holes_fit [OF t p] by (rule length_le_hole_count_sum)
  also have "\<dots> \<le> (\<Sum>w < capacityWords m. cover_count m w)"
    by (intro sum_mono) (simp add: cover_count_alt)
  also have "\<dots> = (\<Sum>w < capacityWords m. 1)"
    using t by (intro sum.cong) (simp_all add: tiled_def)
  finally show ?thesis by simp
qed

lemma consistent_offsets:
  assumes "consistent m" and "h \<in> set (holeList m)"
  shows "offset_H h \<le> 65535" and "unat (offset_H h) + unat (length_H h) < 2 ^ 32"
proof -
  from assms have t: "tiled m" and p: "length_H h \<noteq> 0" and c: "capacityWords m \<le> 65535"
    by (simp_all add: consistent_def positive_extents_def)
  from tiled_hole_within [OF t assms(2) p] c
  have b: "unat (offset_H h) + unat (length_H h) \<le> 65535" by simp
  then show "unat (offset_H h) + unat (length_H h) < 2 ^ 32" by simp
  from b have "unat (offset_H h) \<le> 65535" by simp
  then show "offset_H h \<le> 65535" by (simp add: word_le_nat_alt)
qed

lemma mergeHoles_fits:
  "list_all (fits_in cap) hs \<Longrightarrow> cap < 2 ^ 32 \<Longrightarrow>
   list_all (fits_in cap) (mergeHoles hs) \<and> hole_count (mergeHoles hs) w = hole_count hs w"
proof (induction hs rule: mergeHoles.induct)
  case 1
  then show ?case by simp
next
  case (2 h)
  then show ?case by simp
next
  case (3 h n rest)
  show ?case
  proof (cases "offset_H h + length_H h = offset_H n")
    case True
    let ?h' = "h\<lparr>length_H := length_H h + length_H n\<rparr>"
    from "3.prems" have fh: "fits_in cap h" and fn: "fits_in cap n" and fr: "list_all (fits_in cap) rest"
      by simp_all
    have a: "unat (offset_H h + length_H h) = unat (offset_H h) + unat (length_H h)"
      using fh "3.prems"(2) by (simp add: fits_in_def unat_add_lem [THEN iffD1])
    then have n: "unat (offset_H n) = unat (offset_H h) + unat (length_H h)"
      using True by simp
    have tot: "unat (offset_H h) + unat (length_H h) + unat (length_H n) \<le> cap"
      using fn n by (simp add: fits_in_def)
    then have lt: "unat (offset_H h) + unat (length_H h) + unat (length_H n) < 2 ^ 32"
      using "3.prems"(2) by simp
    have b: "unat (length_H h + length_H n) = unat (length_H h) + unat (length_H n)"
      using lt by (simp add: unat_add_lem [THEN iffD1])
    have "0 < unat (length_H h)"
      using fh by (simp add: fits_in_def unat_gt_0)
    then have "length_H h + length_H n \<noteq> 0"
      using b by (metis add_is_0 less_numeral_extra(3) unat_0)
    then have fh': "fits_in cap ?h'"
      using tot b by (simp add: fits_in_def)
    with fr have "list_all (fits_in cap) (?h' # rest)" by simp
    from "3.IH"(1) [OF True this "3.prems"(2)] have
      ih: "list_all (fits_in cap) (mergeHoles (?h' # rest))" and
      cnt: "hole_count (mergeHoles (?h' # rest)) w = hole_count (?h' # rest) w"
      by simp_all
    have "(if in_hole ?h' w then 1 else 0) =
          (if in_hole h w then 1 else 0) + (if in_hole n w then 1 else (0 :: nat))"
      using covers_join [OF lt, of w] True by (simp add: in_hole_def)
    then have "hole_count (?h' # rest) w = hole_count (h # n # rest) w"
      by simp
    with ih cnt True show ?thesis by simp
  next
    case False
    from "3.prems" have "list_all (fits_in cap) (n # rest)" by simp
    from "3.IH"(2) [OF False this "3.prems"(2)] "3.prems"(1) False show ?thesis
      by simp
  qed
qed

lemma exact_request_words:
  assumes ws: "ws \<noteq> 0" and n: "n \<noteq> 0" and ex: "exact_request ws n"
  shows "sint (words_of_bytes ws n) = uint (words_of_bytes ws n)" and "words_of_bytes ws n \<noteq> 0"
proof -
  let ?c = "(uint n + uint ws - 1) div uint ws"
  from ex have s: "uint n + uint ws - 1 < 2 ^ 64" and f: "?c < 2 ^ 31"
    by (simp_all add: exact_request_def)
  from f have "?c < 2 ^ 32" by simp
  with ws s have u: "uint (words_of_bytes ws n) = ?c"
    by (rule words_of_bytes_ceiling)
  with f show "sint (words_of_bytes ws n) = uint (words_of_bytes ws n)"
    by (intro sint_small) simp
  have p: "0 < uint ws"
    using ws by (simp add: word_greater_zero_iff [symmetric] word_less_def)
  have "0 < uint n"
    using n by (simp add: word_greater_zero_iff [symmetric] word_less_def)
  then have "uint ws \<le> uint n + uint ws - 1" by linarith
  with p have "0 < ?c"
    by (simp only: pos_imp_zdiv_pos_iff)
  with u show "words_of_bytes ws n \<noteq> 0" by auto
qed

lemma consistent_empty:
  assumes "wordSize m \<noteq> 0" and "allocator m = bestFit \<or> allocator m = worstFit"
    and "memoryLimit m = 0" and "holeList m = []" and "allocatedList m = []"
  shows "consistent m"
  using assms
  by (simp add: consistent_def capacityWords_def positive_extents_def tiled_def cover_count_alt)

lemma new_consistent:
  "ws \<noteq> 0 \<Longrightarrow> consistent (MemoryManager_new ws bestFit) \<and> consistent (MemoryManager_new ws worstFit)"
  by (simp add: consistent_empty MemoryManager_new_def)

subsection \<open>What the calls do to a consistent state\<close>

text \<open>
  From a consistent state \<open>free\<close> either changes nothing or erases one block and returns
  its extent to the Hole Ledger; \<open>allocate\<close> with an exact request either changes nothing
  or takes the request from the low end of a hole that is large enough.
\<close>

lemma free_shape:
  assumes c: "consistent m"
  shows "free m a = Some m \<or>
         (memoryStart m \<noteq> 0 \<and> a \<noteq> 0 \<and>
          (\<exists>pre b post.
             allocatedList m = pre @ b # post \<and>
             (\<forall>x \<in> set pre. offset_B x \<noteq> word_offset_of m a) \<and>
             offset_B b = word_offset_of m a \<and>
             free m a =
               Some (m\<lparr>allocatedList := pre @ post,
                       holeList :=
                         mergeHoles
                           (insert_hole \<lparr>offset_H = offset_B b, length_H = length_B b\<rparr>
                              (holeList m))\<rparr>)))"
proof (cases "memoryStart m = 0 \<or> a = 0")
  case True
  then show ?thesis by (simp add: free_def)
next
  case live: False
  from c have ws: "wordSize m \<noteq> 0" and p: "positive_extents m"
    by (simp_all add: consistent_def)
  let ?q = "word_offset_of m a"
  show ?thesis
  proof (cases "erase_block ?q (allocatedList m)")
    case None
    then show ?thesis
      using live ws by (simp add: free_def)
  next
    case (Some r)
    then obtain len rest where e: "erase_block ?q (allocatedList m) = Some (len, rest)"
      by (cases r) simp
    from erase_block_Some [OF e] obtain pre b post where
      sp: "allocatedList m = pre @ b # post" and
      pre: "\<forall>x \<in> set pre. offset_B x \<noteq> ?q" and
      b: "offset_B b = ?q" and len: "len = length_B b" and rest: "rest = pre @ post"
      by blast
    from sp p have pb: "length_B b \<noteq> 0"
      by (simp add: positive_extents_def)
    have "free m a =
        Some (m\<lparr>allocatedList := pre @ post,
                holeList :=
                  mergeHoles
                    (insert_hole \<lparr>offset_H = offset_B b, length_H = length_B b\<rparr> (holeList m))\<rparr>)"
      using live ws e len rest b pb by (simp add: free_def)
    with sp pre b live show ?thesis by blast
  qed
qed

lemma allocate_shape:
  assumes c: "consistent m" and ex: "exact_request (wordSize m) n"
  shows "allocate m n = Some (0, m) \<or>
         (memoryStart m \<noteq> 0 \<and>
          (\<exists>pre h post.
            holeList m = pre @ h # post \<and>
            (\<forall>x \<in> set pre. offset_H x \<noteq> offset_H h) \<and>
            words_of_bytes (wordSize m) n \<le> length_H h \<and>
            words_of_bytes (wordSize m) n \<noteq> 0 \<and>
            allocate m n =
              Some (memoryStart m + ucast (offset_H h * wordSize m),
                    m\<lparr>allocatedList :=
                         insert_block
                           \<lparr>offset_B = offset_H h, length_B = words_of_bytes (wordSize m) n\<rparr>
                           (allocatedList m),
                       holeList :=
                         pre @
                         (if length_H h = words_of_bytes (wordSize m) n then []
                          else [h\<lparr>offset_H := offset_H h + words_of_bytes (wordSize m) n,
                                  length_H := length_H h - words_of_bytes (wordSize m) n\<rparr>]) @
                         post\<rparr>)))"
proof (cases "memoryStart m = 0 \<or> n = 0")
  case True
  then show ?thesis by (simp add: allocate_def)
next
  case live: False
  from c have ws: "wordSize m \<noteq> 0" and t: "tiled m" and p: "positive_extents m"
    and cap: "capacityWords m \<le> 65535"
    and st: "allocator m = bestFit \<or> allocator m = worstFit"
    by (simp_all add: consistent_def)
  let ?r = "words_of_bytes (wordSize m) n"
  from live have n: "n \<noteq> 0" by simp
  note r = exact_request_words [OF ws n ex]
  show ?thesis
  proof (cases "holeList m = []")
    case True
    then show ?thesis
      using live ws by (simp add: allocate_def getList_def)
  next
    case holes: False
    have cnt: "length (holeList m) \<le> 65535"
      using hole_ledger_length [OF t p] cap by simp
    have offs: "\<forall>h \<in> set (holeList m). offset_H h \<le> 65535"
      using consistent_offsets(1) [OF c] by blast
    from strategies_choose [OF st cnt offs holes, of "sint ?r"] obtain list wo where
      gl: "getList m = Some list" and al: "allocator m (sint ?r) list = Some wo" and
      ch: "wo = - 1 \<or>
           (\<exists>h \<in> set (holeList m). offset_H h = word_of_int wo \<and> sint ?r \<le> uint (length_H h))"
      by blast
    show ?thesis
    proof (cases "wo = - 1")
      case True
      then show ?thesis
        using live ws gl al by (simp add: allocate_def)
    next
      case False
      with ch obtain hc where hc: "hc \<in> set (holeList m)" and
        off: "offset_H hc = word_of_int wo" and big: "sint ?r \<le> uint (length_H hc)"
        by blast
      then have "take_from_hole (word_of_int wo) ?r (holeList m) \<noteq> None"
        by (auto simp: take_from_hole_None)
      then obtain hs' where th: "take_from_hole (word_of_int wo) ?r (holeList m) = Some hs'"
        by blast
      from take_from_hole_Some [OF th] obtain pre h post where
        sp: "holeList m = pre @ h # post" and pre: "\<forall>x \<in> set pre. offset_H x \<noteq> word_of_int wo"
        and ho: "offset_H h = word_of_int wo" and
        hs': "hs' = pre @ (if length_H h = ?r then []
                          else [h\<lparr>offset_H := offset_H h + ?r, length_H := length_H h - ?r\<rparr>]) @ post"
        by blast
      have hm: "h \<in> set (holeList m)" using sp by simp
      have same: "hc = h"
      proof (rule ccontr)
        assume "hc \<noteq> h"
        with hc sp have x: "hc \<in> set pre \<union> set post" by auto
        from p hc hm have "length_H hc \<noteq> 0" and "length_H h \<noteq> 0"
          by (simp_all add: positive_extents_def)
        from hole_unique [OF t sp x this(2) this(1)] off ho show False by simp
      qed
      have le: "?r \<le> length_H h"
        using big r(1) same by (simp add: word_le_def)
      have res0: "allocate m n =
          Some (memoryStart m + ucast (word_of_int wo * wordSize m),
                m\<lparr>allocatedList :=
                     insert_block \<lparr>offset_B = word_of_int wo, length_B = ?r\<rparr> (allocatedList m),
                   holeList := hs'\<rparr>)"
        using live ws gl al False th by (simp add: allocate_def)
      have res: "allocate m n =
          Some (memoryStart m + ucast (offset_H h * wordSize m),
                m\<lparr>allocatedList :=
                     insert_block \<lparr>offset_B = offset_H h, length_B = ?r\<rparr> (allocatedList m),
                   holeList :=
                     pre @
                     (if length_H h = ?r then []
                      else [h\<lparr>offset_H := offset_H h + ?r, length_H := length_H h - ?r\<rparr>]) @
                     post\<rparr>)"
        using res0 by (simp only: ho [symmetric] hs')
      from pre ho have pre': "\<forall>x \<in> set pre. offset_H x \<noteq> offset_H h" by simp
      show ?thesis
      proof (intro disjI2 exI conjI)
        show "memoryStart m \<noteq> 0" using live by simp
        show "holeList m = pre @ h # post" by (fact sp)
        show "\<forall>x \<in> set pre. offset_H x \<noteq> offset_H h" by (fact pre')
        show "?r \<le> length_H h" by (fact le)
        show "?r \<noteq> 0" by (fact r(2))
        show "allocate m n =
          Some (memoryStart m + ucast (offset_H h * wordSize m),
                m\<lparr>allocatedList :=
                     insert_block \<lparr>offset_B = offset_H h, length_B = ?r\<rparr> (allocatedList m),
                   holeList :=
                     pre @
                     (if length_H h = ?r then []
                      else [h\<lparr>offset_H := offset_H h + ?r, length_H := length_H h - ?r\<rparr>]) @
                     post\<rparr>)" by (fact res)
      qed
    qed
  qed
qed

subsection \<open>Null results of exact requests\<close>

text \<open>
  On a consistent state and for an exact request, the count handed to the strategy is the
  requested word count of the specification, and the strategy answers with the sentinel
  exactly when no hole of the ledger is large enough for it; otherwise it answers with
  the offset of a hole that is large enough.
\<close>

lemma strategy_answer_exact:
  assumes c: "consistent m" and ex: "exact_request (wordSize m) n" and n: "n \<noteq> 0"
    and holes: "holeList m \<noteq> []"
  shows "\<exists>wo. strategy_answer m n = Some wo \<and>
           (wo = - 1 \<longleftrightarrow>
              (\<forall>h \<in> set (holeList m). uint (length_H h) < ceil_words (wordSize m) n)) \<and>
           (wo \<noteq> - 1 \<longrightarrow>
              (\<exists>h \<in> set (holeList m).
                 offset_H h = word_of_int wo \<and> ceil_words (wordSize m) n \<le> uint (length_H h)))"
proof -
  from c have ws: "wordSize m \<noteq> 0" and t: "tiled m" and p: "positive_extents m"
    and cap: "capacityWords m \<le> 65535"
    and st: "allocator m = bestFit \<or> allocator m = worstFit"
    by (simp_all add: consistent_def)
  let ?r = "words_of_bytes (wordSize m) n"
  from ex have s: "uint n + uint (wordSize m) - 1 < 2 ^ 64"
    and f: "(uint n + uint (wordSize m) - 1) div uint (wordSize m) < 2 ^ 31"
    by (simp_all add: exact_request_def)
  from f have "(uint n + uint (wordSize m) - 1) div uint (wordSize m) < 2 ^ 32" by simp
  with ws s have "uint ?r = (uint n + uint (wordSize m) - 1) div uint (wordSize m)"
    by (rule words_of_bytes_ceiling)
  then have u: "uint ?r = ceil_words (wordSize m) n"
    by (simp only: ceil_words_def)
  have req: "sint ?r = ceil_words (wordSize m) n"
    using exact_request_words(1) [OF ws n ex] u by simp
  have cnt: "length (holeList m) \<le> 65535"
    using hole_ledger_length [OF t p] cap by simp
  have offs: "\<forall>h \<in> set (holeList m). offset_H h \<le> 65535"
    using consistent_offsets(1) [OF c] by blast
  have lens: "\<forall>h \<in> set (holeList m). length_H h \<le> 65535"
  proof
    fix h assume h: "h \<in> set (holeList m)"
    with p have "length_H h \<noteq> 0" by (simp add: positive_extents_def)
    from tiled_hole_within [OF t h this] cap have "unat (length_H h) \<le> 65535" by simp
    then show "length_H h \<le> 65535" by (simp add: word_le_nat_alt)
  qed
  from strategies_choose [OF st cnt offs holes, of "sint ?r"] obtain list wo where
    gl: "getList m = Some list" and al: "allocator m (sint ?r) list = Some wo" and
    ch: "wo = - 1 \<or>
         (\<exists>h \<in> set (holeList m). offset_H h = word_of_int wo \<and> sint ?r \<le> uint (length_H h))"
    by blast
  have ans: "strategy_answer m n = Some wo"
    using gl al by (simp add: strategy_answer_def)
  have none: "\<forall>h \<in> set (holeList m). uint (length_H h) < ceil_words (wordSize m) n" if "wo = - 1"
  proof (rule ccontr)
    assume "\<not> (\<forall>h \<in> set (holeList m). uint (length_H h) < ceil_words (wordSize m) n)"
    then have "\<exists>h \<in> set (holeList m). sint ?r \<le> uint (length_H h)"
      unfolding req by (simp add: not_less)
    from strategies_fit [OF st cnt lens this] obtain list' wo' where
      "getList m = Some list'" and "allocator m (sint ?r) list' = Some wo'" and "0 \<le> wo'"
      by blast
    with gl al have "0 \<le> wo" by simp
    with that show False by simp
  qed
  have some: "\<exists>h \<in> set (holeList m).
                offset_H h = word_of_int wo \<and> ceil_words (wordSize m) n \<le> uint (length_H h)"
    if "wo \<noteq> - 1"
    using ch that unfolding req by blast
  have "wo = - 1" if "\<forall>h \<in> set (holeList m). uint (length_H h) < ceil_words (wordSize m) n"
  proof (rule ccontr)
    assume "wo \<noteq> - 1"
    from some [OF this] that show False by (auto simp: not_less [symmetric])
  qed
  with ans none some show ?thesis by blast
qed

text \<open>
  So, for consistent states, exact requests and an arena based at or below \<open>2^64 - 2^32\<close>,
  \<open>allocate\<close> returns null exactly when \<open>sizeInBytes = 0\<close>, no arena is live, or no hole is
  large enough for the requested word count (which includes the empty Hole Ledger), and
  then the state is unchanged.
\<close>

theorem allocate_null_exact:
  assumes c: "consistent m" and ex: "exact_request (wordSize m) n"
    and base: "memoryStart m \<le> 0xFFFFFFFF00000000"
  shows "\<exists>a m'. allocate m n = Some (a, m') \<and>
           (a = 0 \<longleftrightarrow>
              (n = 0 \<or> memoryStart m = 0 \<or>
               (\<forall>h \<in> set (holeList m). uint (length_H h) < ceil_words (wordSize m) n))) \<and>
           (a = 0 \<longrightarrow> m' = m)"
proof (cases "memoryStart m = 0 \<or> n = 0")
  case True
  then have "allocate m n = Some (0, m)" by (simp add: allocate_def)
  with True show ?thesis by auto
next
  case live: False
  from c have ws: "wordSize m \<noteq> 0" by (simp add: consistent_def)
  show ?thesis
  proof (cases "holeList m = []")
    case True
    then have "allocate m n = Some (0, m)"
      using live ws by (simp add: allocate_def getList_def)
    with True show ?thesis by auto
  next
    case holes: False
    from live have n: "n \<noteq> 0" by simp
    from strategy_answer_exact [OF c ex n holes] obtain wo where
      ans: "strategy_answer m n = Some wo" and
      none: "wo = - 1 \<longleftrightarrow>
               (\<forall>h \<in> set (holeList m). uint (length_H h) < ceil_words (wordSize m) n)" and
      some: "wo \<noteq> - 1 \<longrightarrow> (\<exists>h \<in> set (holeList m). offset_H h = word_of_int wo)"
      by blast
    from holes obtain list where gl: "getList m = Some list"
      by (simp add: getList_def)
    with ans have st: "allocator m (sint (words_of_bytes (wordSize m) n)) list = Some wo"
      by (simp add: strategy_answer_def)
    show ?thesis
    proof (cases "wo = - 1")
      case True
      then have "allocate m n = Some (0, m)"
        using live ws gl st by (simp add: allocate_def)
      with True none show ?thesis by auto
    next
      case False
      with some have
        "take_from_hole (word_of_int wo) (words_of_bytes (wordSize m) n) (holeList m) \<noteq> None"
        by (simp add: take_from_hole_None)
      then obtain hs where th:
        "take_from_hole (word_of_int wo) (words_of_bytes (wordSize m) n) (holeList m) = Some hs"
        by blast
      let ?a = "memoryStart m + ucast (word_of_int wo * wordSize m)"
      let ?m' = "m\<lparr>allocatedList :=
                     insert_block \<lparr>offset_B = word_of_int wo,
                                   length_B = words_of_bytes (wordSize m) n\<rparr> (allocatedList m),
                   holeList := hs\<rparr>"
      have res: "allocate m n = Some (?a, ?m')"
        using live ws gl st False th by (simp add: allocate_def)
      have nonnull: "?a \<noteq> 0"
        using live base by (intro base_plus_offset_nonzero) simp_all
      from False none have
        "\<not> (\<forall>h \<in> set (holeList m). uint (length_H h) < ceil_words (wordSize m) n)"
        by simp
      with res nonnull live show ?thesis by auto
    qed
  qed
qed

subsection \<open>Preservation of the tiling\<close>

theorem free_consistent:
  assumes c: "consistent m"
  shows "\<exists>m'. free m a = Some m' \<and> consistent m' \<and> wordSize m' = wordSize m"
proof -
  from c have t: "tiled m" and p: "positive_extents m" and cap: "capacityWords m \<le> 65535"
    by (simp_all add: consistent_def)
  from free_shape [OF c, of a] consider
    (same) "free m a = Some m"
  | (freed) pre b post where "memoryStart m \<noteq> 0" "allocatedList m = pre @ b # post"
      "free m a =
         Some (m\<lparr>allocatedList := pre @ post,
                 holeList :=
                   mergeHoles
                     (insert_hole \<lparr>offset_H = offset_B b, length_H = length_B b\<rparr>
                        (holeList m))\<rparr>)"
    by blast
  then show ?thesis
  proof cases
    case same
    with c show ?thesis by simp
  next
    case (freed pre b post)
    note live = freed(1) and sp = freed(2) and fr = freed(3)
    let ?hb = "\<lparr>offset_H = offset_B b, length_H = length_B b\<rparr>"
    let ?hs = "mergeHoles (insert_hole ?hb (holeList m))"
    let ?m' = "m\<lparr>allocatedList := pre @ post, holeList := ?hs\<rparr>"
    have bm: "b \<in> set (allocatedList m)" using sp by simp
    with p have pb: "length_B b \<noteq> 0"
      by (simp add: positive_extents_def)
    from tiled_block_within [OF t bm pb] have "fits_in (capacityWords m) ?hb"
      using pb by (simp add: fits_in_def)
    with holes_fit [OF t p] have
      "list_all (fits_in (capacityWords m)) (insert_hole ?hb (holeList m))"
      by (simp add: list_all_iff set_insert_hole)
    moreover have "capacityWords m < 2 ^ 32" using cap by simp
    ultimately have fits: "list_all (fits_in (capacityWords m)) ?hs"
      and cnt: "\<And>w. hole_count ?hs w = hole_count (insert_hole ?hb (holeList m)) w"
      using mergeHoles_fits by blast+
    have capm: "capacityWords ?m' = capacityWords m"
      by (simp add: capacityWords_def)
    have "cover_count ?m' w = cover_count m w" for w
      by (simp add: cover_count_alt cnt hole_count_insert sp in_hole_def in_block_def)
    then have t': "tiled ?m'"
      using t by (simp add: tiled_def capm)
    have p': "positive_extents ?m'"
      using fits p sp by (auto simp: positive_extents_def list_all_iff fits_in_def)
    have "consistent ?m'"
      using c t' p' live by (simp add: consistent_def capm)
    with fr show ?thesis by simp
  qed
qed

theorem allocate_consistent:
  assumes c: "consistent m" and ex: "exact_request (wordSize m) n"
  shows "\<exists>a m'. allocate m n = Some (a, m') \<and> consistent m' \<and> wordSize m' = wordSize m"
proof -
  from c have t: "tiled m" and p: "positive_extents m"
    by (simp_all add: consistent_def)
  let ?r = "words_of_bytes (wordSize m) n"
  from allocate_shape [OF c ex] consider
    (none) "allocate m n = Some (0, m)"
  | (taken) pre h post where "memoryStart m \<noteq> 0" "holeList m = pre @ h # post"
      "?r \<le> length_H h" "?r \<noteq> 0"
      "allocate m n =
         Some (memoryStart m + ucast (offset_H h * wordSize m),
               m\<lparr>allocatedList :=
                    insert_block \<lparr>offset_B = offset_H h, length_B = ?r\<rparr> (allocatedList m),
                  holeList :=
                    pre @
                    (if length_H h = ?r then []
                     else [h\<lparr>offset_H := offset_H h + ?r, length_H := length_H h - ?r\<rparr>]) @
                    post\<rparr>)"
    by blast
  then show ?thesis
  proof cases
    case none
    with c show ?thesis by simp
  next
    case (taken pre h post)
    note live = taken(1) and sp = taken(2) and le = taken(3) and r0 = taken(4)
      and res = taken(5)
    let ?h' = "h\<lparr>offset_H := offset_H h + ?r, length_H := length_H h - ?r\<rparr>"
    let ?b = "\<lparr>offset_B = offset_H h, length_B = ?r\<rparr>"
    let ?hs' = "pre @ (if length_H h = ?r then [] else [?h']) @ post"
    let ?m' = "m\<lparr>allocatedList := insert_block ?b (allocatedList m), holeList := ?hs'\<rparr>"
    have hm: "h \<in> set (holeList m)" using sp by simp
    have nowrap: "unat (offset_H h) + unat (length_H h) < 2 ^ 32"
      using consistent_offsets(2) [OF c hm] .
    have capm: "capacityWords ?m' = capacityWords m"
      by (simp add: capacityWords_def)
    have split: "(if in_block ?b w then 1 else 0) +
                 (if length_H h = ?r then 0 else if in_hole ?h' w then 1 else 0) =
                 (if in_hole h w then 1 else (0 :: nat))" for w
    proof (cases "length_H h = ?r")
      case True
      then show ?thesis by (simp add: in_block_def in_hole_def)
    next
      case False
      then show ?thesis
        using covers_split [OF nowrap le, of w] by (simp add: in_block_def in_hole_def)
    qed
    have "cover_count ?m' w = cover_count m w" for w
    proof -
      have hc': "hole_count ?hs' w =
          hole_count pre w +
          (if length_H h = ?r then 0 else if in_hole ?h' w then 1 else 0) +
          hole_count post w"
        by simp
      have hm': "hole_count (holeList m) w =
          hole_count pre w + (if in_hole h w then 1 else 0) + hole_count post w"
        by (simp add: sp)
      have bc': "block_count (insert_block ?b (allocatedList m)) w =
          (if in_block ?b w then 1 else 0) + block_count (allocatedList m) w"
        by (rule block_count_insert)
      have "cover_count ?m' w =
          hole_count ?hs' w + block_count (insert_block ?b (allocatedList m)) w"
        by (simp add: cover_count_alt)
      then show ?thesis
        unfolding cover_count_alt [of m] hc' hm' bc' using split [of w] by linarith
    qed
    then have t': "tiled ?m'"
      using t by (simp add: tiled_def capm)
    have "length_H h - ?r \<noteq> 0" if "length_H h \<noteq> ?r"
      using that by simp
    then have p': "positive_extents ?m'"
      using p r0 sp by (auto simp: positive_extents_def set_insert_block)
    have "consistent ?m'"
      using c t' p' live by (simp add: consistent_def capm)
    with res show ?thesis by simp
  qed
qed

theorem initialize_consistent:
  assumes c: "consistent m" and sane: "mmap_sane mmap"
  shows "consistent (snd (initialize mmap m n)) \<and>
         wordSize (snd (initialize mmap m n)) = wordSize m"
proof -
  from c have ws: "wordSize m \<noteq> 0" and st: "allocator m = bestFit \<or> allocator m = worstFit"
    by (simp_all add: consistent_def)
  let ?m1 = "if memoryStart m = 0 then m else shutdown m"
  have m1: "wordSize ?m1 = wordSize m" "allocator ?m1 = allocator m"
    "holeList ?m1 = []" "allocatedList ?m1 = []" "memoryStart ?m1 = 0"
    using c by (auto simp: shutdown_def consistent_def)
  have c1: "consistent ?m1"
  proof (cases "memoryStart m = 0")
    case True
    with c show ?thesis by simp
  next
    case False
    then have "memoryLimit ?m1 = 0" by (simp add: shutdown_def)
    with m1 ws st show ?thesis by (intro consistent_empty) simp_all
  qed
  show ?thesis
  proof (cases "ucast MAX_NUM_WORDS < n")
    case True
    then have "snd (initialize mmap m n) = ?m1"
      by (simp add: initialize_def Let_def)
    with c1 m1(1) show ?thesis by simp
  next
    case small: False
    then have nle: "unat n \<le> 65535"
      by (simp add: MAX_NUM_WORDS_def word_less_nat_alt not_less)
    let ?lim = "n * ucast (wordSize m)"
    have lim: "unat ?lim = unat n * unat (wordSize m)"
      using nle by (rule unat_capacity_bytes)
    show ?thesis
    proof (cases "mmap ?lim = MAP_FAILED")
      case True
      let ?m' = "?m1\<lparr>memoryLimit := 0, memoryStart := 0\<rparr>"
      have "snd (initialize mmap m n) = ?m'"
        using small True m1(1) by (simp add: initialize_def Let_def)
      moreover have "consistent ?m'"
        using m1 ws st by (intro consistent_empty) simp_all
      ultimately show ?thesis using m1(1) by simp
    next
      case False
      let ?m' = "?m1\<lparr>memoryLimit := ?lim, memoryStart := mmap ?lim,
                     holeList := [\<lparr>offset_H = 0, length_H = ucast n\<rparr>], allocatedList := []\<rparr>"
      have res: "snd (initialize mmap m n) = ?m'"
        using small False m1(1) by (simp add: initialize_def Let_def)
      have "?lim \<noteq> 0"
        using False sane by (auto simp: mmap_sane_def)
      then have n0: "unat n \<noteq> 0"
        by (metis lim mult_is_0 unat_eq_zero)
      have wsn: "0 < unat (wordSize m)"
        using ws by (simp add: unat_gt_0)
      have capm: "capacityWords ?m' = unat n"
        using wsn by (simp add: capacityWords_def m1(1) lim)
      have un: "unat (ucast n :: 32 word) = unat n"
        using nle by (rule unat_ucast_64_32)
      have live: "memoryStart ?m' \<noteq> 0"
        using sane by (simp add: mmap_sane_def)
      have pos: "positive_extents ?m'"
        using n0 un by (auto simp: positive_extents_def)
      have "cover_count ?m' w = (if w < unat n then 1 else 0)" for w
        by (simp add: cover_count_alt in_hole_def covers_def un)
      then have "tiled ?m'"
        by (simp only: tiled_def capm) simp
      then have "consistent ?m'"
        using ws st nle live pos m1(1,2) by (simp add: consistent_def capm)
      with res m1(1) show ?thesis by simp
    qed
  qed
qed

theorem run_consistent:
  assumes "consistent m" and "mmap_sane mmap" and "list_all (sane_call (wordSize m)) cs"
  shows "\<exists>m'. run mmap m cs = Some m' \<and> consistent m'"
  using assms
proof (induction cs arbitrary: m)
  case Nil
  then show ?case by simp
next
  case (Cons c cs)
  have "\<exists>m1. step mmap m c = Some m1 \<and> consistent m1 \<and> wordSize m1 = wordSize m"
  proof (cases c)
    case (Initialize n)
    with initialize_consistent [OF Cons.prems(1,2), of n] show ?thesis by simp
  next
    case (Allocate n)
    with Cons.prems(3) have "exact_request (wordSize m) n" by simp
    from allocate_consistent [OF Cons.prems(1) this] Allocate show ?thesis by auto
  next
    case (Free a)
    with free_consistent [OF Cons.prems(1), of a] show ?thesis by simp
  qed
  then obtain m1 where s: "step mmap m c = Some m1" and c1: "consistent m1"
    and w: "wordSize m1 = wordSize m" by blast
  from Cons.prems(3) w have "list_all (sane_call (wordSize m1)) cs" by simp
  from Cons.IH [OF c1 Cons.prems(2) this] s show ?case by simp
qed

subsection \<open>Preservation of the separation\<close>

lemma gap_offsets: "gap h n \<Longrightarrow> offset_H h < offset_H n"
  by (simp add: gap_def word_less_nat_alt)

lemma no_overlap_offsets: "no_overlap h n \<Longrightarrow> offset_H h \<le> offset_H n"
  by (simp add: no_overlap_def word_le_nat_alt)

lemma gap_no_overlap: "gap h n \<Longrightarrow> no_overlap h n"
  by (simp add: gap_def no_overlap_def)

lemma gap_not_adjacent:
  assumes "gap h n" and "unat (offset_H h) + unat (length_H h) < 2 ^ 32"
  shows "offset_H h + length_H h \<noteq> offset_H n"
proof
  assume e: "offset_H h + length_H h = offset_H n"
  have "unat (offset_H h + length_H h) = unat (offset_H h) + unat (length_H h)"
    using assms(2) by (simp add: unat_add_lem [THEN iffD1])
  with e assms(1) show False by (simp add: gap_def)
qed

lemma separated_pairs:
  assumes "separated hs" and "h1 \<in> set hs" and "h2 \<in> set hs" and "offset_H h1 < offset_H h2"
  shows "gap h1 h2"
  using assms
proof (induction hs)
  case Nil
  then show ?case by simp
next
  case (Cons x xs)
  from Cons.prems(1) have hd: "\<forall>y \<in> set xs. gap x y" and tl: "separated xs"
    by (simp_all add: separated_def)
  consider "h1 = x" "h2 = x" | "h1 = x" "h2 \<in> set xs" | "h1 \<in> set xs" "h2 = x"
    | "h1 \<in> set xs" "h2 \<in> set xs"
    using Cons.prems(2,3) by auto
  then show ?case
  proof cases
    case 1
    with Cons.prems(4) show ?thesis by simp
  next
    case 2
    with hd show ?thesis by simp
  next
    case 3
    with hd have "offset_H h2 < offset_H h1" by (simp add: gap_offsets)
    with Cons.prems(4) show ?thesis by simp
  next
    case 4
    with Cons.IH [OF tl] Cons.prems(4) show ?thesis by simp
  qed
qed

lemma separated_no_overlap: "separated hs \<Longrightarrow> sorted_wrt no_overlap hs"
  using sorted_wrt_mono_rel [of hs gap no_overlap] by (auto simp: separated_def gap_no_overlap)

lemma mergeHoles_offsets:
  "y \<in> set (mergeHoles hs) \<Longrightarrow> \<exists>x \<in> set hs. offset_H y = offset_H x"
proof (induction hs arbitrary: y rule: mergeHoles.induct)
  case 1
  then show ?case by simp
next
  case (2 h)
  then show ?case by simp
next
  case (3 h n rest)
  show ?case
  proof (cases "offset_H h + length_H h = offset_H n")
    case True
    with "3.prems" have "y \<in> set (mergeHoles (h\<lparr>length_H := length_H h + length_H n\<rparr> # rest))"
      by simp
    from "3.IH"(1) [OF True this] show ?thesis by auto
  next
    case False
    with "3.prems" have "y = h \<or> y \<in> set (mergeHoles (n # rest))" by simp
    then show ?thesis
    proof
      assume "y = h"
      then show ?thesis by simp
    next
      assume "y \<in> set (mergeHoles (n # rest))"
      from "3.IH"(2) [OF False this] show ?thesis by auto
    qed
  qed
qed

lemma mergeHoles_separated:
  "sorted_wrt no_overlap hs \<Longrightarrow> list_all (fits_in cap) hs \<Longrightarrow> cap < 2 ^ 32 \<Longrightarrow>
   separated (mergeHoles hs)"
proof (induction hs rule: mergeHoles.induct)
  case 1
  then show ?case by (simp add: separated_def)
next
  case (2 h)
  then show ?case by (simp add: separated_def)
next
  case (3 h n rest)
  from "3.prems" have fh: "fits_in cap h" and fn: "fits_in cap n"
    and fr: "list_all (fits_in cap) rest"
    and hn: "no_overlap h n" and hr: "\<forall>y \<in> set rest. no_overlap h y"
    and nr: "\<forall>y \<in> set rest. no_overlap n y" and sr: "sorted_wrt no_overlap rest"
    by simp_all
  have a: "unat (offset_H h + length_H h) = unat (offset_H h) + unat (length_H h)"
    using fh "3.prems"(3) by (simp add: fits_in_def unat_add_lem [THEN iffD1])
  show ?case
  proof (cases "offset_H h + length_H h = offset_H n")
    case True
    let ?h' = "h\<lparr>length_H := length_H h + length_H n\<rparr>"
    have n: "unat (offset_H n) = unat (offset_H h) + unat (length_H h)"
      using a True by simp
    have tot: "unat (offset_H h) + unat (length_H h) + unat (length_H n) \<le> cap"
      using fn n by (simp add: fits_in_def)
    then have b: "unat (length_H h + length_H n) = unat (length_H h) + unat (length_H n)"
      using "3.prems"(3) by (simp add: unat_add_lem [THEN iffD1])
    have "0 < unat (length_H h)"
      using fh by (simp add: fits_in_def unat_gt_0)
    then have "length_H h + length_H n \<noteq> 0"
      using b by (metis add_is_0 less_numeral_extra(3) unat_0)
    then have fh': "fits_in cap ?h'"
      using tot b by (simp add: fits_in_def)
    have "\<forall>y \<in> set rest. no_overlap ?h' y"
      using nr n b by (simp add: no_overlap_def add.assoc)
    with sr have "sorted_wrt no_overlap (?h' # rest)" by simp
    moreover have "list_all (fits_in cap) (?h' # rest)"
      using fh' fr by simp
    ultimately have "separated (mergeHoles (?h' # rest))"
      using "3.IH"(1) [OF True] "3.prems"(3) by blast
    with True show ?thesis by simp
  next
    case False
    then have "unat (offset_H h) + unat (length_H h) \<noteq> unat (offset_H n)"
      using a by (metis word_unat_eq_iff)
    with hn have g: "unat (offset_H h) + unat (length_H h) < unat (offset_H n)"
      by (simp add: no_overlap_def)
    have "sorted_wrt no_overlap (n # rest)" using nr sr by simp
    moreover have "list_all (fits_in cap) (n # rest)" using fn fr by simp
    ultimately have ih: "separated (mergeHoles (n # rest))"
      using "3.IH"(2) [OF False] "3.prems"(3) by blast
    have "gap h y" if "y \<in> set (mergeHoles (n # rest))" for y
    proof -
      from mergeHoles_offsets [OF that] obtain x where
        x: "x \<in> set (n # rest)" and o: "offset_H y = offset_H x" by blast
      have "unat (offset_H n) \<le> unat (offset_H x)"
      proof (cases "x = n")
        case True
        then show ?thesis by simp
      next
        case False
        with x nr have "no_overlap n x" by simp
        then show ?thesis by (simp add: no_overlap_def)
      qed
      with g o show ?thesis by (simp add: gap_def)
    qed
    with ih False show ?thesis by (simp add: separated_def)
  qed
qed

lemma mergeHoles_prefix:
  "\<forall>x \<in> set pre. unat (offset_H x) + unat (length_H x) < 2 ^ 32 \<Longrightarrow>
   sorted_wrt gap (pre @ [y]) \<Longrightarrow>
   mergeHoles (pre @ y # ys) = pre @ mergeHoles (y # ys)"
proof (induction pre)
  case Nil
  then show ?case by simp
next
  case (Cons p ps)
  from Cons.prems have nw: "unat (offset_H p) + unat (length_H p) < 2 ^ 32"
    and rest: "\<forall>x \<in> set ps. unat (offset_H x) + unat (length_H x) < 2 ^ 32"
    and tl: "sorted_wrt gap (ps @ [y])" and hd: "\<forall>z \<in> set (ps @ [y]). gap p z"
    by simp_all
  have ih: "mergeHoles (ps @ y # ys) = ps @ mergeHoles (y # ys)"
    using rest tl by (rule Cons.IH)
  show ?case
  proof (cases ps)
    case Nil
    with hd have "gap p y" by simp
    from gap_not_adjacent [OF this nw] Nil show ?thesis by simp
  next
    case (Cons q qs)
    with hd have "gap p q" by simp
    from gap_not_adjacent [OF this nw] ih Cons show ?thesis by simp
  qed
qed

lemma mergeHoles_id:
  "separated hs \<Longrightarrow> \<forall>x \<in> set hs. unat (offset_H x) + unat (length_H x) < 2 ^ 32 \<Longrightarrow>
   mergeHoles hs = hs"
proof (induction hs rule: mergeHoles.induct)
  case 1
  then show ?case by simp
next
  case (2 h)
  then show ?case by simp
next
  case (3 h n rest)
  from "3.prems" have g: "gap h n" and s: "separated (n # rest)"
    by (simp_all add: separated_def)
  from "3.prems"(2) have nw: "unat (offset_H h) + unat (length_H h) < 2 ^ 32"
    and r: "\<forall>x \<in> set (n # rest). unat (offset_H x) + unat (length_H x) < 2 ^ 32"
    by simp_all
  from gap_not_adjacent [OF g nw] have na: "offset_H h + length_H h \<noteq> offset_H n" .
  from "3.IH"(2) [OF na s r] na show ?case by simp
qed

lemma disjoint_before:
  assumes d: "\<And>w. \<not> (in_hole x w \<and> in_hole hb w)"
    and lt: "offset_H x < offset_H hb" and p: "length_H hb \<noteq> 0"
  shows "no_overlap x hb"
proof (rule ccontr)
  assume n: "\<not> no_overlap x hb"
  let ?w = "unat (offset_H hb)"
  have "in_hole hb ?w"
    using p by (simp add: in_hole_def covers_first)
  moreover have "in_hole x ?w"
    using n lt by (simp add: in_hole_def covers_def no_overlap_def word_less_nat_alt)
  ultimately show False using d by blast
qed

lemma disjoint_after:
  assumes d: "\<And>w. \<not> (in_hole x w \<and> in_hole hb w)"
    and ge: "\<not> offset_H x < offset_H hb" and p: "length_H x \<noteq> 0"
  shows "no_overlap hb x"
proof (rule ccontr)
  assume n: "\<not> no_overlap hb x"
  let ?w = "unat (offset_H x)"
  have "in_hole x ?w"
    using p by (simp add: in_hole_def covers_first)
  moreover have "in_hole hb ?w"
    using n ge by (simp add: in_hole_def covers_def no_overlap_def word_less_nat_alt)
  ultimately show False using d by blast
qed

lemma insert_hole_no_overlap:
  assumes "separated hs"
    and "\<forall>x \<in> set hs. length_H x \<noteq> 0 \<and> (\<forall>w. \<not> (in_hole x w \<and> in_hole hb w))"
    and "length_H hb \<noteq> 0"
  shows "sorted_wrt no_overlap (insert_hole hb hs)"
  using assms
proof (induction hs)
  case Nil
  then show ?case by simp
next
  case (Cons x xs)
  from Cons.prems(1) have hd: "\<forall>y \<in> set xs. gap x y" and tl: "separated xs"
    by (simp_all add: separated_def)
  from Cons.prems(2) have dx: "\<And>w. \<not> (in_hole x w \<and> in_hole hb w)" and px: "length_H x \<noteq> 0"
    and rest: "\<forall>y \<in> set xs. length_H y \<noteq> 0 \<and> (\<forall>w. \<not> (in_hole y w \<and> in_hole hb w))"
    by simp_all
  show ?case
  proof (cases "offset_H x < offset_H hb")
    case True
    have "no_overlap x hb"
      using dx True Cons.prems(3) by (rule disjoint_before)
    moreover have "\<forall>y \<in> set xs. no_overlap x y"
      using hd by (simp add: gap_no_overlap)
    moreover have "sorted_wrt no_overlap (insert_hole hb xs)"
      using tl rest Cons.prems(3) by (rule Cons.IH)
    ultimately show ?thesis
      using True by (simp add: set_insert_hole)
  next
    case False
    have "no_overlap hb x"
      using dx False px by (rule disjoint_after)
    moreover have "no_overlap hb y" if "y \<in> set xs" for y
    proof -
      from that hd have "offset_H x < offset_H y" by (simp add: gap_offsets)
      with False have "\<not> offset_H y < offset_H hb" by simp
      moreover from that rest have "\<And>w. \<not> (in_hole y w \<and> in_hole hb w)" "length_H y \<noteq> 0"
        by simp_all
      ultimately show ?thesis by (intro disjoint_after) simp_all
    qed
    moreover have "sorted_wrt no_overlap (x # xs)"
      using Cons.prems(1) by (rule separated_no_overlap)
    ultimately show ?thesis
      using False by simp
  qed
qed

lemma take_from_hole_separated:
  fixes r :: "32 word"
  assumes s: "separated (pre @ h # post)" and le: "r \<le> length_H h"
    and nowrap: "unat (offset_H h) + unat (length_H h) < 2 ^ 32"
  shows "separated (pre @ (if length_H h = r then []
                          else [h\<lparr>offset_H := offset_H h + r, length_H := length_H h - r\<rparr>]) @ post)"
proof -
  have rl: "unat r \<le> unat (length_H h)"
    using le by (simp add: word_le_nat_alt)
  then have "unat (offset_H h) + unat r < 2 ^ 32"
    using nowrap by simp
  then have a: "unat (offset_H h + r) = unat (offset_H h) + unat r"
    by (simp add: unat_add_lem [THEN iffD1])
  have b: "unat (length_H h - r) = unat (length_H h) - unat r"
    using le by (simp add: unat_sub)
  let ?h' = "h\<lparr>offset_H := offset_H h + r, length_H := length_H h - r\<rparr>"
  have before: "gap x ?h'" if "gap x h" for x
    using that a by (simp add: gap_def)
  have after: "gap ?h' y" if "gap h y" for y
    using that a b rl by (simp add: gap_def)
  from s show ?thesis
    by (auto simp: separated_def sorted_wrt_append before after)
qed

theorem free_separated:
  assumes c: "consistent m" and s: "separated (holeList m)" and f: "free m a = Some m'"
  shows "separated (holeList m')"
proof -
  from c have t: "tiled m" and p: "positive_extents m" and cap: "capacityWords m \<le> 65535"
    by (simp_all add: consistent_def)
  from free_shape [OF c, of a] consider
    (same) "free m a = Some m"
  | (freed) pre b post where "allocatedList m = pre @ b # post"
      "free m a =
         Some (m\<lparr>allocatedList := pre @ post,
                 holeList :=
                   mergeHoles
                     (insert_hole \<lparr>offset_H = offset_B b, length_H = length_B b\<rparr>
                        (holeList m))\<rparr>)"
    by blast
  then show ?thesis
  proof cases
    case same
    with f s show ?thesis by simp
  next
    case (freed pre b post)
    note sp = freed(1) and fr = freed(2)
    let ?hb = "\<lparr>offset_H = offset_B b, length_H = length_B b\<rparr>"
    have bm: "b \<in> set (allocatedList m)" using sp by simp
    with p have pb: "length_B b \<noteq> 0" by (simp add: positive_extents_def)
    have "\<forall>x \<in> set (holeList m). length_H x \<noteq> 0 \<and> (\<forall>w. \<not> (in_hole x w \<and> in_hole ?hb w))"
      using p tiled_disjoint [OF t _ bm]
      by (auto simp: positive_extents_def in_hole_def in_block_def)
    with s have no: "sorted_wrt no_overlap (insert_hole ?hb (holeList m))"
      using pb by (intro insert_hole_no_overlap) simp_all
    from tiled_block_within [OF t bm pb] have "fits_in (capacityWords m) ?hb"
      using pb by (simp add: fits_in_def)
    with holes_fit [OF t p] have
      "list_all (fits_in (capacityWords m)) (insert_hole ?hb (holeList m))"
      by (simp add: list_all_iff set_insert_hole)
    moreover have "capacityWords m < 2 ^ 32" using cap by simp
    ultimately have "separated (mergeHoles (insert_hole ?hb (holeList m)))"
      using no by (intro mergeHoles_separated)
    with f fr show ?thesis by auto
  qed
qed

theorem allocate_separated:
  assumes c: "consistent m" and ex: "exact_request (wordSize m) n"
    and s: "separated (holeList m)" and al: "allocate m n = Some (a, m')"
  shows "separated (holeList m')"
proof -
  let ?r = "words_of_bytes (wordSize m) n"
  from allocate_shape [OF c ex] consider
    (none) "allocate m n = Some (0, m)"
  | (taken) pre h post where "holeList m = pre @ h # post" "?r \<le> length_H h"
      "allocate m n =
         Some (memoryStart m + ucast (offset_H h * wordSize m),
               m\<lparr>allocatedList :=
                    insert_block \<lparr>offset_B = offset_H h, length_B = ?r\<rparr> (allocatedList m),
                  holeList :=
                    pre @
                    (if length_H h = ?r then []
                     else [h\<lparr>offset_H := offset_H h + ?r, length_H := length_H h - ?r\<rparr>]) @
                    post\<rparr>)"
    by blast
  then show ?thesis
  proof cases
    case none
    with al s show ?thesis by simp
  next
    case (taken pre h post)
    note sp = taken(1) and le = taken(2) and res = taken(3)
    have "h \<in> set (holeList m)" using sp by simp
    from consistent_offsets(2) [OF c this]
    have "separated (pre @ (if length_H h = ?r then []
                            else [h\<lparr>offset_H := offset_H h + ?r,
                                    length_H := length_H h - ?r\<rparr>]) @ post)"
      using s le unfolding sp by (intro take_from_hole_separated)
    with al res show ?thesis by auto
  qed
qed

lemma initialize_holes:
  assumes "consistent m"
  shows "holeList (snd (initialize mmap m n)) = [] \<or>
         (\<exists>h. holeList (snd (initialize mmap m n)) = [h])"
  using assms by (auto simp: initialize_def Let_def shutdown_def consistent_def)

lemma initialize_separated:
  assumes "consistent m"
  shows "separated (holeList (snd (initialize mmap m n)))"
  using initialize_holes [OF assms, of mmap n] by (auto simp: separated_def)

lemma new_well_formed:
  "ws \<noteq> 0 \<Longrightarrow> well_formed (MemoryManager_new ws bestFit) \<and> well_formed (MemoryManager_new ws worstFit)"
  using new_consistent [of ws] by (simp add: well_formed_def separated_def MemoryManager_new_def)

theorem run_well_formed:
  assumes "well_formed m" and "mmap_sane mmap" and "list_all (sane_call (wordSize m)) cs"
  shows "\<exists>m'. run mmap m cs = Some m' \<and> well_formed m'"
  using assms
proof (induction cs arbitrary: m)
  case Nil
  then show ?case by simp
next
  case (Cons c cs)
  from Cons.prems(1) have con: "consistent m" and sep: "separated (holeList m)"
    by (simp_all add: well_formed_def)
  have "\<exists>m1. step mmap m c = Some m1 \<and> well_formed m1 \<and> wordSize m1 = wordSize m"
  proof (cases c)
    case (Initialize n)
    with initialize_consistent [OF con Cons.prems(2), of n] initialize_separated [OF con, of mmap n]
    show ?thesis by (simp add: well_formed_def)
  next
    case (Allocate n)
    with Cons.prems(3) have ex: "exact_request (wordSize m) n" by simp
    from allocate_consistent [OF con ex] obtain a m1 where
      al: "allocate m n = Some (a, m1)" and c1: "consistent m1" and w: "wordSize m1 = wordSize m"
      by blast
    from allocate_separated [OF con ex sep al] have "separated (holeList m1)" .
    with al c1 w Allocate show ?thesis by (simp add: well_formed_def)
  next
    case (Free a)
    from free_consistent [OF con, of a] obtain m1 where
      fr: "free m a = Some m1" and c1: "consistent m1" and w: "wordSize m1 = wordSize m"
      by blast
    from free_separated [OF con sep fr] have "separated (holeList m1)" .
    with fr c1 w Free show ?thesis by (simp add: well_formed_def)
  qed
  then obtain m1 where s: "step mmap m c = Some m1" and c1: "well_formed m1"
    and w: "wordSize m1 = wordSize m" by blast
  from Cons.prems(3) w have "list_all (sane_call (wordSize m1)) cs" by simp
  from Cons.IH [OF c1 Cons.prems(2) this] s show ?case by simp
qed

subsection \<open>No adjacency after a release, and the round trip\<close>

text \<open>
  From a well-formed state, no two holes are adjacent after \<open>free\<close>, and on an arena below
  4 GiB an allocation with an exact request followed by the release of the returned
  address restores both ledgers.
\<close>

theorem free_no_adjacent_holes:
  assumes w: "well_formed m" and f: "free m a = Some m'"
    and h1: "h1 \<in> set (holeList m')" and h2: "h2 \<in> set (holeList m')"
    and lt: "offset_H h1 < offset_H h2"
  shows "unat (offset_H h1) + unat (length_H h1) < unat (offset_H h2)"
proof -
  from w have "consistent m" and "separated (holeList m)"
    by (simp_all add: well_formed_def)
  from free_separated [OF this f] have "separated (holeList m')" .
  from separated_pairs [OF this h1 h2 lt] show ?thesis by (simp add: gap_def)
qed

theorem allocate_free_round_trip:
  assumes w: "well_formed m" and ex: "exact_request (wordSize m) n"
    and small: "unat (memoryLimit m) < 2 ^ 32"
    and al: "allocate m n = Some (a, m')" and nonnull: "a \<noteq> 0"
  shows "\<exists>m''. free m' a = Some m'' \<and> holeList m'' = holeList m \<and>
           allocatedList m'' = allocatedList m"
proof -
  from w have c: "consistent m" and s: "separated (holeList m)"
    by (simp_all add: well_formed_def)
  from c have ws: "wordSize m \<noteq> 0" and t: "tiled m" and p: "positive_extents m"
    and cap: "capacityWords m \<le> 65535"
    by (simp_all add: consistent_def)
  let ?r = "words_of_bytes (wordSize m) n"
  from al nonnull have live: "memoryStart m \<noteq> 0"
    by (auto simp: allocate_def)
  from allocate_shape [OF c ex] al nonnull obtain pre h post where
    sp: "holeList m = pre @ h # post" and le: "?r \<le> length_H h" and r0: "?r \<noteq> 0" and
    res: "allocate m n =
            Some (memoryStart m + ucast (offset_H h * wordSize m),
                  m\<lparr>allocatedList :=
                       insert_block \<lparr>offset_B = offset_H h, length_B = ?r\<rparr> (allocatedList m),
                     holeList :=
                       pre @
                       (if length_H h = ?r then []
                        else [h\<lparr>offset_H := offset_H h + ?r, length_H := length_H h - ?r\<rparr>]) @
                       post\<rparr>)"
    by auto
  let ?h' = "h\<lparr>offset_H := offset_H h + ?r, length_H := length_H h - ?r\<rparr>"
  let ?mid = "if length_H h = ?r then [] else [?h']"
  let ?b = "\<lparr>offset_B = offset_H h, length_B = ?r\<rparr>"
  let ?hb = "\<lparr>offset_H = offset_H h, length_H = ?r\<rparr>"
  from al res have a: "a = memoryStart m + ucast (offset_H h * wordSize m)"
    and m': "m' = m\<lparr>allocatedList := insert_block ?b (allocatedList m),
                     holeList := pre @ ?mid @ post\<rparr>"
    by simp_all
  have hm: "h \<in> set (holeList m)" using sp by simp
  with p have ph: "length_H h \<noteq> 0" by (simp add: positive_extents_def)
  have within: "unat (offset_H h) + unat (length_H h) \<le> capacityWords m"
    using tiled_hole_within [OF t hm ph] .
  have nowrap: "unat x_off + unat x_len \<le> capacityWords m \<Longrightarrow> unat x_off + unat x_len < 2 ^ 32"
    for x_off x_len :: "32 word"
    using cap by simp
  have fits: "\<forall>x \<in> set (holeList m). unat (offset_H x) + unat (length_H x) < 2 ^ 32"
    using consistent_offsets(2) [OF c] by blast
  \<comment> \<open>the word offset recovered from the returned address\<close>
  have "unat (offset_H h) < capacityWords m"
    using within ph by (simp add: unat_gt_0 [symmetric])
  then have "unat (offset_H h) * unat (wordSize m) < capacityWords m * unat (wordSize m)"
    using ws by (simp add: unat_gt_0)
  also have "\<dots> \<le> unat (memoryLimit m)"
    by (simp add: capacityWords_def)
  finally have "unat (offset_H h) * unat (wordSize m) < 2 ^ 32"
    using small by simp
  with ws have q: "word_offset_of m' a = offset_H h"
    unfolding word_offset_of_def a m' by (simp add: word_offset_of_returned)
  \<comment> \<open>the block just inserted is the one erased\<close>
  have er: "erase_block (offset_H h) (allocatedList m') = Some (?r, allocatedList m)"
    using erase_inserted_block [of ?b "allocatedList m"] by (simp add: m')
  have same: "memoryStart m' = memoryStart m" "wordSize m' = wordSize m"
    by (simp_all add: m')
  have fr: "free m' a =
      Some (m'\<lparr>allocatedList := allocatedList m,
               holeList := mergeHoles (insert_hole ?hb (holeList m'))\<rparr>)"
    using live nonnull ws q er r0 by (simp add: free_def Let_def same)
  \<comment> \<open>the hole comes back in front of what is left of the chosen hole\<close>
  have sep: "sorted_wrt gap pre" "sorted_wrt gap post" "\<forall>x \<in> set pre. gap x h"
    "\<forall>y \<in> set post. gap h y"
    using s by (auto simp: separated_def sp sorted_wrt_append)
  have rl: "unat ?r \<le> unat (length_H h)"
    using le by (simp add: word_le_nat_alt)
  have ar: "unat (offset_H h + ?r) = unat (offset_H h) + unat ?r"
    using nowrap [OF within] rl by (simp add: unat_add_lem [THEN iffD1])
  have "\<forall>x \<in> set pre. offset_H x < offset_H ?hb"
    using sep(3) by (simp add: gap_offsets)
  then have i1: "insert_hole ?hb (pre @ ?mid @ post) = pre @ insert_hole ?hb (?mid @ post)"
    by (rule insert_hole_after)
  have "\<forall>y \<in> set (?mid @ post). \<not> offset_H y < offset_H ?hb"
    using sep(4) ar by (auto simp: gap_def word_less_nat_alt)
  then have i2: "insert_hole ?hb (?mid @ post) = ?hb # ?mid @ post"
    by (rule insert_hole_front)
  have "\<forall>x \<in> set pre. unat (offset_H x) + unat (length_H x) < 2 ^ 32"
    using fits sp by simp
  moreover have "sorted_wrt gap (pre @ [?hb])"
    using sep(1,3) by (simp add: sorted_wrt_append gap_def)
  ultimately have m1: "mergeHoles (pre @ ?hb # ?mid @ post) = pre @ mergeHoles (?hb # ?mid @ post)"
    by (rule mergeHoles_prefix)
  have id: "mergeHoles (h # post) = h # post"
    using sep(2,4) fits sp by (intro mergeHoles_id) (simp_all add: separated_def)
  have m2: "mergeHoles (?hb # ?mid @ post) = h # post"
  proof (cases "length_H h = ?r")
    case True
    then have mid: "?mid = []" by simp
    have hb: "?hb = h" using True by simp
    show ?thesis unfolding mid hb using id by simp
  next
    case False
    then have mid: "?mid = [?h']" by simp
    have hb: "?hb\<lparr>length_H := length_H ?hb + length_H ?h'\<rparr> = h" by simp
    have "mergeHoles (?hb # [?h'] @ post) =
          mergeHoles (?hb\<lparr>length_H := length_H ?hb + length_H ?h'\<rparr> # post)"
      by simp
    then show ?thesis unfolding mid hb using id by simp
  qed
  have hl: "holeList m' = pre @ ?mid @ post"
    by (simp add: m')
  have "mergeHoles (insert_hole ?hb (holeList m')) = pre @ h # post"
    unfolding hl i1 i2 m1 m2 by (rule refl)
  with fr sp show ?thesis by simp
qed

end
